theory Spec2Isabelle
  imports Main "HOL-Library.List_Lexorder"
begin

section \<open>Strings of UTF-16 code units\<close>

text \<open>
  A JavaScript string is a sequence of UTF-16 code units; a code unit is modelled by its
  number. \<open>js\<close> turns an ASCII literal into such a string. The character classes are
  those of ECMAScript: \<^verbatim>\<open>\s\<close> and \<open>trim\<close> use white space and line terminators,
  \<^verbatim>\<open>\w\<close> and \<^verbatim>\<open>\b\<close> use the ASCII word characters, and the \<open>m\<close> flag makes
  \<open>^\<close> and \<open>$\<close> look at line terminators. With the \<open>i\<close> flag (and no \<open>u\<close> flag) a
  code unit is compared through its upper case; against the ASCII patterns of this program
  only the ASCII letters are affected.
\<close>

type_synonym jschar = nat
type_synonym jsstring = "jschar list"

definition js :: "string \<Rightarrow> jsstring" where
  "js s = map of_char s"

definition isLineTerminator :: "jschar \<Rightarrow> bool" where
  "isLineTerminator c = (c = 10 \<or> c = 13 \<or> c = 8232 \<or> c = 8233)"

definition isWhiteSpace :: "jschar \<Rightarrow> bool" where
  "isWhiteSpace c = (c = 9 \<or> c = 11 \<or> c = 12 \<or> c = 32 \<or> c = 160 \<or> c = 5760
     \<or> (8192 \<le> c \<and> c \<le> 8202) \<or> c = 8239 \<or> c = 8287 \<or> c = 12288 \<or> c = 65279)"

definition isSpace :: "jschar \<Rightarrow> bool" where
  "isSpace c = (isWhiteSpace c \<or> isLineTerminator c)"

definition isDigit :: "jschar \<Rightarrow> bool" where
  "isDigit c = (48 \<le> c \<and> c \<le> 57)"

definition isWordChar :: "jschar \<Rightarrow> bool" where
  "isWordChar c = ((97 \<le> c \<and> c \<le> 122) \<or> (65 \<le> c \<and> c \<le> 90) \<or> isDigit c \<or> c = 95)"

definition canonicalize :: "jschar \<Rightarrow> jschar" where
  "canonicalize c = (if 97 \<le> c \<and> c \<le> 122 then c - 32 else c)"

definition caseVariants :: "jschar \<Rightarrow> jschar list" where
  "caseVariants c = [c, canonicalize c, (if 65 \<le> c \<and> c \<le> 90 then c + 32 else c)]"

text \<open>
  The fragment of the regular-expression syntax that \<open>util.js\<close> uses: character classes,
  sequence, alternative, greedy and lazy star, option, capture group, lookahead, the
  anchors \<open>^\<close> and \<open>$\<close> and the word boundary.
\<close>

datatype cls =
    CChar jschar
  | CRange jschar jschar
  | CSpace
  | CWord
  | CDigit
  | CDot
  | CNot cls
  | COneOf "cls list"

fun cmatch :: "bool \<Rightarrow> cls \<Rightarrow> jschar \<Rightarrow> bool" where
  "cmatch ic (CChar a) c = (if ic then canonicalize c = canonicalize a else c = a)"
| "cmatch ic (CRange a b) c =
     (if ic then list_ex (\<lambda>d. a \<le> d \<and> d \<le> b) (caseVariants c) else a \<le> c \<and> c \<le> b)"
| "cmatch ic CSpace c = isSpace c"
| "cmatch ic CWord c = isWordChar c"
| "cmatch ic CDigit c = isDigit c"
| "cmatch ic CDot c = (\<not> isLineTerminator c)"
| "cmatch ic (CNot k) c = (\<not> cmatch ic k c)"
| "cmatch ic (COneOf ks) c = list_ex (\<lambda>k. cmatch ic k c) ks"

datatype regex =
    Chr cls
  | Eps
  | Seq regex regex
  | Alt regex regex
  | Star bool regex
  | Opt regex
  | Grp nat regex
  | Look regex
  | Bol
  | Eol
  | WordB

text \<open>
  The backtracking matcher. A state holds the text before the position (reversed), the
  text from the position on, and the captures. \<open>ms\<close> returns every way the pattern can
  match at the position, in the order in which a backtracking engine tries them, so the
  head of the list is the match that \<open>exec\<close> reports. An iteration of a star or of an
  option that consumes nothing is rejected, as in ECMAScript.
\<close>

type_synonym captures = "nat \<Rightarrow> jsstring option"
type_synonym mstate = "jsstring \<times> jsstring \<times> captures"

definition remaining :: "mstate \<Rightarrow> nat" where
  "remaining st = length (fst (snd st))"

function ms :: "bool \<Rightarrow> bool \<Rightarrow> regex \<Rightarrow> mstate \<Rightarrow> mstate list" where
  "ms ic ml (Chr k) st =
     (case fst (snd st) of
        [] \<Rightarrow> []
      | c # rest \<Rightarrow> if cmatch ic k c then [(c # fst st, rest, snd (snd st))] else [])"
| "ms ic ml Eps st = [st]"
| "ms ic ml (Seq a b) st = concat (map (ms ic ml b) (ms ic ml a st))"
| "ms ic ml (Alt a b) st = ms ic ml a st @ ms ic ml b st"
| "ms ic ml (Star True a) st =
     concat (map (\<lambda>st'. if remaining st' < remaining st then ms ic ml (Star True a) st' else [])
                 (ms ic ml a st))
       @ [st]"
| "ms ic ml (Star False a) st =
     st # concat (map (\<lambda>st'. if remaining st' < remaining st then ms ic ml (Star False a) st' else [])
                      (ms ic ml a st))"
| "ms ic ml (Opt a) st = filter (\<lambda>st'. remaining st' < remaining st) (ms ic ml a st) @ [st]"
| "ms ic ml (Grp n a) st =
     map (\<lambda>st'. (fst st', fst (snd st'),
                 (snd (snd st'))(n \<mapsto> take (remaining st - remaining st') (fst (snd st)))))
         (ms ic ml a st)"
| "ms ic ml (Look a) st =
     (case ms ic ml a st of
        [] \<Rightarrow> []
      | st' # _ \<Rightarrow> [(fst st, fst (snd st), snd (snd st'))])"
| "ms ic ml Bol st =
     (if fst st = [] \<or> (ml \<and> isLineTerminator (hd (fst st))) then [st] else [])"
| "ms ic ml Eol st =
     (if fst (snd st) = [] \<or> (ml \<and> isLineTerminator (hd (fst (snd st)))) then [st] else [])"
| "ms ic ml WordB st =
     (if (fst st \<noteq> [] \<and> isWordChar (hd (fst st)))
           \<noteq> (fst (snd st) \<noteq> [] \<and> isWordChar (hd (fst (snd st))))
      then [st] else [])"
  by pat_completeness auto
termination
  by (relation "inv_image (less_than <*lex*> less_than)
                  (\<lambda>(ic, ml, r, st). (size r, remaining st))") auto


section \<open>String and RegExp built-ins\<close>

text \<open>
  A match result: the text before the match (reversed), the matched text \<open>m[0]\<close>, the text
  after it and the groups. \<open>search\<close> is a pattern without the \<open>g\<close> flag tried at every
  position from the left; \<open>replaceAll\<close> and \<open>matchAllFrom\<close> are \<open>replace\<close> and \<open>match\<close> with
  the \<open>g\<close> flag, which step over an empty match; \<open>execLoop\<close> is the source's
  \<^verbatim>\<open>while ((m = re.exec(s)) !== null)\<close>, which would never end on an empty match.
\<close>

record rmatch =
  mstart :: jsstring
  mtext :: jsstring
  mrest :: jsstring
  mgroup :: captures

definition matchAt :: "bool \<Rightarrow> bool \<Rightarrow> regex \<Rightarrow> jsstring \<Rightarrow> jsstring \<Rightarrow> rmatch option" where
  "matchAt ic ml r pre suf =
     (case ms ic ml r (pre, suf, \<lambda>_. None) of
        [] \<Rightarrow> None
      | st # _ \<Rightarrow> Some \<lparr>mstart = pre, mtext = take (length suf - remaining st) suf,
                          mrest = fst (snd st), mgroup = snd (snd st)\<rparr>)"

fun searchFrom :: "bool \<Rightarrow> bool \<Rightarrow> regex \<Rightarrow> jsstring \<Rightarrow> jsstring \<Rightarrow> rmatch option" where
  "searchFrom ic ml r pre [] = matchAt ic ml r pre []"
| "searchFrom ic ml r pre (c # rest) =
     (case matchAt ic ml r pre (c # rest) of
        Some m \<Rightarrow> Some m
      | None \<Rightarrow> searchFrom ic ml r (c # pre) rest)"

definition search :: "bool \<Rightarrow> bool \<Rightarrow> regex \<Rightarrow> jsstring \<Rightarrow> rmatch option" where
  "search ic ml r s = searchFrom ic ml r [] s"

function replaceAllFrom ::
  "bool \<Rightarrow> bool \<Rightarrow> regex \<Rightarrow> jsstring \<Rightarrow> jsstring \<Rightarrow> jsstring \<Rightarrow> jsstring" where
  "replaceAllFrom ic ml r rep pre suf =
     (case matchAt ic ml r pre suf of
        Some m \<Rightarrow>
          if length (mrest m) < length suf
          then rep @ replaceAllFrom ic ml r rep (rev (mtext m) @ pre) (mrest m)
          else (case suf of
                  [] \<Rightarrow> rep
                | c # rest \<Rightarrow> rep @ c # replaceAllFrom ic ml r rep (c # pre) rest)
      | None \<Rightarrow>
          (case suf of
             [] \<Rightarrow> []
           | c # rest \<Rightarrow> c # replaceAllFrom ic ml r rep (c # pre) rest))"
  by pat_completeness auto
termination
  by (relation "measure (\<lambda>(ic, ml, r, rep, pre, suf). length suf)") auto

definition replaceAll :: "bool \<Rightarrow> bool \<Rightarrow> regex \<Rightarrow> jsstring \<Rightarrow> jsstring \<Rightarrow> jsstring" where
  "replaceAll ic ml r rep s = replaceAllFrom ic ml r rep [] s"

definition replaceFirst ::
  "bool \<Rightarrow> bool \<Rightarrow> regex \<Rightarrow> (rmatch \<Rightarrow> jsstring) \<Rightarrow> jsstring \<Rightarrow> jsstring" where
  "replaceFirst ic ml r f s =
     (case search ic ml r s of
        None \<Rightarrow> s
      | Some m \<Rightarrow> rev (mstart m) @ f m @ mrest m)"

function matchAllFrom :: "bool \<Rightarrow> bool \<Rightarrow> regex \<Rightarrow> jsstring \<Rightarrow> jsstring \<Rightarrow> jsstring list" where
  "matchAllFrom ic ml r pre suf =
     (case matchAt ic ml r pre suf of
        Some m \<Rightarrow>
          if length (mrest m) < length suf
          then mtext m # matchAllFrom ic ml r (rev (mtext m) @ pre) (mrest m)
          else (case suf of
                  [] \<Rightarrow> [mtext m]
                | c # rest \<Rightarrow> mtext m # matchAllFrom ic ml r (c # pre) rest)
      | None \<Rightarrow>
          (case suf of
             [] \<Rightarrow> []
           | c # rest \<Rightarrow> matchAllFrom ic ml r (c # pre) rest))"
  by pat_completeness auto
termination
  by (relation "measure (\<lambda>(ic, ml, r, pre, suf). length suf)") auto

definition trim :: "jsstring \<Rightarrow> jsstring" where
  "trim s = rev (dropWhile isSpace (rev (dropWhile isSpace s)))"

fun join :: "jsstring \<Rightarrow> jsstring list \<Rightarrow> jsstring" where
  "join sep [] = []"
| "join sep [x] = x"
| "join sep (x # y # ys) = x @ sep @ join sep (y # ys)"

definition slice0 :: "'a list \<Rightarrow> int \<Rightarrow> 'a list" where
  "slice0 xs n = (if n < 0 then take (nat (int (length xs) + n)) xs else take (nat n) xs)"

datatype jsvalue = JSUndefined | JSNull | JSString jsstring

datatype error = TypeError | NonTermination

function execLoop ::
  "bool \<Rightarrow> bool \<Rightarrow> regex \<Rightarrow> (rmatch \<Rightarrow> error + 'a) \<Rightarrow> jsstring \<Rightarrow> jsstring \<Rightarrow> error + 'a list" where
  "execLoop ic ml r f pre suf =
     (case searchFrom ic ml r pre suf of
        None \<Rightarrow> Inr []
      | Some m \<Rightarrow>
          (case f m of
             Inl e \<Rightarrow> Inl e
           | Inr b \<Rightarrow>
               if length (mrest m) < length suf
               then (case execLoop ic ml r f (rev (mtext m) @ mstart m) (mrest m) of
                       Inl e \<Rightarrow> Inl e
                     | Inr bs \<Rightarrow> Inr (b # bs))
               else Inl NonTermination))"
  by pat_completeness auto
termination
  by (relation "measure (\<lambda>(ic, ml, r, f, pre, suf). length suf)") auto

section \<open>Regular expressions of the source\<close>

text \<open>
  Each pattern of \<open>util.js\<close> as a term; \<open>cat\<close> is a sequence, \<open>lit\<close> a literal text, \<open>many1\<close>
  is \<open>+\<close>, \<open>rep\<close> is \<open>{n}\<close> and \<open>repUpTo\<close> the optional part of \<open>{m,n}\<close>. The flags are
  given where the pattern is used: the first argument of the matching functions is the
  \<open>i\<close> flag, the second the \<open>m\<close> flag.
\<close>

definition chr :: "char \<Rightarrow> regex" where
  "chr c = Chr (CChar (of_char c))"

definition lit :: "string \<Rightarrow> regex" where
  "lit s = foldr (\<lambda>c r. Seq (chr c) r) s Eps"

definition cat :: "regex list \<Rightarrow> regex" where
  "cat rs = foldr Seq rs Eps"

definition many1 :: "bool \<Rightarrow> regex \<Rightarrow> regex" where
  "many1 greedy r = Seq r (Star greedy r)"

text \<open>\<^verbatim>\<open>/\r\n?/g\<close>\<close>

definition reNewline :: regex where
  "reNewline = cat [Chr (CChar 13), Opt (Chr (CChar 10))]"

text \<open>\<^verbatim>\<open>/^##\s+([^\n]+)\n([\s\S]*?)(?=^##\s+|\Z)/gm\<close>. Without the \<open>u\<close> flag
  \<^verbatim>\<open>\Z\<close> is an identity escape: it matches the letter \<open>Z\<close>.\<close>

definition reReleaseSection :: regex where
  "reReleaseSection =
     cat [Bol, lit ''##'', many1 True (Chr CSpace),
          Grp 1 (many1 True (Chr (CNot (CChar 10)))),
          Chr (CChar 10),
          Grp 2 (Star False (Chr (COneOf [CSpace, CNot CSpace]))),
          Look (Alt (cat [Bol, lit ''##'', many1 True (Chr CSpace)]) (chr CHR ''Z''))]"

text \<open>\<^verbatim>\<open>/^\s*([0-9]+\.[0-9]+\.[0-9]+)\b/\<close>\<close>

definition reVersion :: regex where
  "reVersion =
     cat [Bol, Star True (Chr CSpace),
          Grp 1 (cat [many1 True (Chr (CRange 48 57)), chr CHR ''.'',
                      many1 True (Chr (CRange 48 57)), chr CHR ''.'',
                      many1 True (Chr (CRange 48 57))]),
          WordB]"

text \<open>\<^verbatim>\<open>/\{\{<\s*release-date\s+date="([^"]+)"\s*>\}\}/\<close>\<close>

definition reReleaseDate :: regex where
  "reReleaseDate =
     cat [lit ''{{<'', Star True (Chr CSpace), lit ''release-date'', many1 True (Chr CSpace),
          lit ''date='', Chr (CChar 34), Grp 1 (many1 True (Chr (CNot (CChar 34)))), Chr (CChar 34),
          Star True (Chr CSpace), lit ''>}}'']"

text \<open>\<^verbatim>\<open>/\{\{<\s*NAME[^>]*>\}\}\s*\n?/g\<close> for the shortcode names \<open>release-date\<close>,
  \<open>desktop-install\<close>, \<open>desktop-install-v2\<close> and (with the \<open>i\<close> flag) \<open>rss-button\<close>.\<close>

definition reShortcode :: "string \<Rightarrow> regex" where
  "reShortcode name =
     cat [lit ''{{<'', Star True (Chr CSpace), lit name, Star True (Chr (CNot (CChar 62))),
          lit ''>}}'', Star True (Chr CSpace), Opt (Chr (CChar 10))]"

text \<open>\<^verbatim>\<open>/^>\s*\[!\w+\]\s*$/gm\<close>\<close>

definition reAdmonition :: regex where
  "reAdmonition =
     cat [Bol, chr CHR ''>'', Star True (Chr CSpace), lit ''[!'', many1 True (Chr CWord),
          chr CHR '']'', Star True (Chr CSpace), Eol]"

text \<open>\<^verbatim>\<open>/[ \t]+$/gm\<close>\<close>

definition reTrailingBlanks :: regex where
  "reTrailingBlanks = cat [many1 True (Chr (COneOf [CChar 32, CChar 9])), Eol]"

text \<open>\<^verbatim>\<open>/^\s+/\<close>\<close>

definition reLeadingSpace :: regex where
  "reLeadingSpace = cat [Bol, many1 True (Chr CSpace)]"

section \<open>parseReleases\<close>

record release =
  version :: jsstring
  date :: "jsstring option"
  details :: jsstring

text \<open>JavaScript truthiness of a value that is a string, \<open>null\<close> or \<open>undefined\<close>, and
  \<open>v || d\<close> on such a value.\<close>

definition truthy :: "jsstring option \<Rightarrow> bool" where
  "truthy v = (case v of None \<Rightarrow> False | Some s \<Rightarrow> s \<noteq> [])"

text \<open>The cleaning of a release body (lines 292 to 303 of the source): three shortcode
  removals, \<open>trim\<close>, the admonition collapse and the trailing-blank removal, in this order.\<close>

definition stripShortcodes :: "jsstring \<Rightarrow> jsstring" where
  "stripShortcodes body =
     replaceAll False False (reShortcode ''desktop-install-v2'') []
       (replaceAll False False (reShortcode ''desktop-install'') []
         (replaceAll False False (reShortcode ''release-date'') [] body))"

definition cleanRelease :: "jsstring \<Rightarrow> jsstring" where
  "cleanRelease body =
     replaceAll False True reTrailingBlanks []
       (replaceAll False True reAdmonition (js ''>'')
         (trim (stripShortcodes body)))"

definition orElse :: "jsstring option \<Rightarrow> jsstring \<Rightarrow> jsstring" where
  "orElse v d = (case v of None \<Rightarrow> d | Some s \<Rightarrow> if s \<noteq> [] then s else d)"

text \<open>\<^verbatim>\<open>(versionHeading.match(re) || [, ""])[1] || versionHeading\<close> and the date of the
  \<open>release-date\<close> shortcode. A group read with \<open>.trim()\<close> or \<open>.match\<close> raises a TypeError when it
  is undefined.\<close>

definition releaseVersion :: "jsstring \<Rightarrow> jsstring" where
  "releaseVersion versionHeading =
     orElse (case search False False reVersion versionHeading of
               None \<Rightarrow> Some []
             | Some vm \<Rightarrow> mgroup vm 1)
            versionHeading"

definition releaseDate :: "jsstring \<Rightarrow> jsstring option" where
  "releaseDate body =
     (case search False False reReleaseDate body of
        None \<Rightarrow> None
      | Some dm \<Rightarrow> mgroup dm 1)"

definition releaseBlock :: "rmatch \<Rightarrow> error + release" where
  "releaseBlock m =
     (case mgroup m 1 of
        None \<Rightarrow> Inl TypeError
      | Some h \<Rightarrow>
          (case mgroup m 2 of
             None \<Rightarrow> Inl TypeError
           | Some body \<Rightarrow>
               Inr \<lparr>version = releaseVersion (trim h), date = releaseDate body,
                    details = cleanRelease body\<rparr>))"

text \<open>The renderer: the heading with the date after an em dash (code unit 8212) when there
  is one, and the body without leading white space.\<close>

definition renderRelease :: "release \<Rightarrow> jsstring" where
  "renderRelease r =
     js ''## '' @ version r
       @ (case date r of
            None \<Rightarrow> []
          | Some d \<Rightarrow> if d \<noteq> [] then [32, 8212, 32] @ d else [])
       @ [10] @ replaceFirst False False reLeadingSpace (\<lambda>_. []) (details r)"

text \<open>\<open>parseReleases\<close> calls \<open>.replace\<close> on its argument, which raises on \<open>null\<close> and
  \<open>undefined\<close>; \<open>slice(0, n)\<close> is \<open>slice0\<close>.\<close>

definition normalizeNewlines :: "jsstring \<Rightarrow> jsstring" where
  "normalizeNewlines s = replaceAll False False reNewline [10] s"

definition releaseBlocks :: "jsstring \<Rightarrow> error + release list" where
  "releaseBlocks md = execLoop False True reReleaseSection releaseBlock [] md"

definition parseReleases :: "jsvalue \<Rightarrow> int \<Rightarrow> error + jsstring" where
  "parseReleases markdown n =
     (case markdown of
        JSString s \<Rightarrow>
          (case releaseBlocks (normalizeNewlines s) of
             Inl e \<Rightarrow> Inl e
           | Inr blocks \<Rightarrow>
               Inr (join (js ''\<newline>\<newline>---\<newline>\<newline>'') (map renderRelease (slice0 blocks n))))
      | _ \<Rightarrow> Inl TypeError)"

section \<open>Built-ins that depend on the host\<close>

text \<open>
  Two built-ins that \<open>util.js\<close> calls belong to the JavaScript runtime and answer
  differently on different hosts. \<open>Date.parse\<close> reads the host's local time zone for
  strings that are not in the ISO format: \<open>None\<close> stands for \<open>NaN\<close>, \<open>Some t\<close> for the time
  value \<open>t\<close> in milliseconds since the epoch. \<open>String.prototype.localeCompare\<close>, called
  without a locale, compares in the collation of the host's default locale and returns a
  negative number, zero or a positive number. Both are fields of the host, which is a
  parameter of \<open>parseSecurityAnnouncements\<close>; the helpers that reach \<open>Date.parse\<close> only take
  that function. \<open>parseReleases\<close> reaches neither and has no such parameter. The UTC getters
  are the ECMAScript day arithmetic and need no host.
\<close>

type_synonym dateParse = "jsstring \<Rightarrow> int option"

record host =
  Date_parse :: dateParse
  localeCompare :: "jsstring \<Rightarrow> jsstring \<Rightarrow> int"

text \<open>The date of a time value: days since the epoch, shifted to an era of 400 years that
  starts on the first of March, then year, month and day of the proleptic Gregorian calendar.\<close>

definition epochDay :: "int \<Rightarrow> int" where
  "epochDay t = t div 86400000 + 719468"

definition dayOfEra :: "int \<Rightarrow> int" where
  "dayOfEra z = z - (z div 146097) * 146097"

definition yearOfEra :: "int \<Rightarrow> int" where
  "yearOfEra z = (dayOfEra z - dayOfEra z div 1460 + dayOfEra z div 36524 - dayOfEra z div 146096) div 365"

definition dayOfYear :: "int \<Rightarrow> int" where
  "dayOfYear z = dayOfEra z - (365 * yearOfEra z + yearOfEra z div 4 - yearOfEra z div 100)"

definition monthFromMarch :: "int \<Rightarrow> int" where
  "monthFromMarch z = (5 * dayOfYear z + 2) div 153"

definition civilMonth :: "int \<Rightarrow> int" where
  "civilMonth z = (if monthFromMarch z < 10 then monthFromMarch z + 3 else monthFromMarch z - 9)"

definition civilDay :: "int \<Rightarrow> int" where
  "civilDay z = dayOfYear z - (153 * monthFromMarch z + 2) div 5 + 1"

definition civilYear :: "int \<Rightarrow> int" where
  "civilYear z = yearOfEra z + (z div 146097) * 400 + (if civilMonth z \<le> 2 then 1 else 0)"

definition getUTCFullYear :: "int \<Rightarrow> int" where
  "getUTCFullYear t = civilYear (epochDay t)"

definition getUTCMonth :: "int \<Rightarrow> int" where
  "getUTCMonth t = civilMonth (epochDay t) - 1"

definition getUTCDate :: "int \<Rightarrow> int" where
  "getUTCDate t = civilDay (epochDay t)"

text \<open>\<open>String\<close> of an integer and \<open>padStart(2, "0")\<close>.\<close>

function showNat :: "nat \<Rightarrow> jsstring" where
  "showNat n = (if n < 10 then [48 + n] else showNat (n div 10) @ [48 + n mod 10])"
  by pat_completeness auto
termination
  by (relation "measure id") auto

definition showInt :: "int \<Rightarrow> jsstring" where
  "showInt i = (if i < 0 then 45 # showNat (nat (- i)) else showNat (nat i))"

definition padStart2 :: "jsstring \<Rightarrow> jsstring" where
  "padStart2 s = replicate (2 - length s) 48 @ s"

text \<open>\<open>toLowerCase\<close> on the ASCII letters; the source applies it to a month word, which the
  patterns take from \<open>[A-Za-z]+\<close>.\<close>

definition toLowerCase :: "jsstring \<Rightarrow> jsstring" where
  "toLowerCase s = map (\<lambda>c. if 65 \<le> c \<and> c \<le> 90 then c + 32 else c) s"

section \<open>Helpers of util.js\<close>

text \<open>The month table is an object literal, so a lookup also finds what the object inherits.
  Of the keys that consist of lower-case letters only that is \<open>constructor\<close>, whose value is
  the function \<open>Object\<close>; \<open>String\<close> of it is the text V8 prints for a native function.\<close>

datatype monthValue = MonthNumber nat | ObjectConstructor

definition monthTable :: "jsstring \<Rightarrow> monthValue option" where
  "monthTable k =
     (if k = js ''january'' then Some (MonthNumber 1)
      else if k = js ''february'' then Some (MonthNumber 2)
      else if k = js ''march'' then Some (MonthNumber 3)
      else if k = js ''april'' then Some (MonthNumber 4)
      else if k = js ''may'' then Some (MonthNumber 5)
      else if k = js ''june'' then Some (MonthNumber 6)
      else if k = js ''july'' then Some (MonthNumber 7)
      else if k = js ''august'' then Some (MonthNumber 8)
      else if k = js ''september'' then Some (MonthNumber 9)
      else if k = js ''october'' then Some (MonthNumber 10)
      else if k = js ''november'' then Some (MonthNumber 11)
      else if k = js ''december'' then Some (MonthNumber 12)
      else if k = js ''constructor'' then Some ObjectConstructor
      else None)"

definition monthToNum :: "jsstring \<Rightarrow> monthValue option" where
  "monthToNum name = monthTable (toLowerCase name)"

definition monthString :: "monthValue \<Rightarrow> jsstring" where
  "monthString v =
     (case v of
        MonthNumber n \<Rightarrow> showNat n
      | ObjectConstructor \<Rightarrow> js ''function Object() { [native code] }'')"

text \<open>Bounded repetition: \<open>r{n}\<close>, and the greedy optional part of \<open>r{m,n}\<close>.\<close>

fun rep :: "nat \<Rightarrow> regex \<Rightarrow> regex" where
  "rep 0 r = Eps"
| "rep (Suc n) r = Seq r (rep n r)"

fun repUpTo :: "nat \<Rightarrow> regex \<Rightarrow> regex" where
  "repUpTo 0 r = Eps"
| "repUpTo (Suc n) r = Opt (Seq r (repUpTo n r))"

text \<open>\<^verbatim>\<open>/\s*,\s*(\d{4})/\<close>, \<^verbatim>\<open>/\b(\d{4})-(\d{2})-(\d{2})\b/\<close>,
  \<^verbatim>\<open>/\b([A-Za-z]+)\s+(\d{1,2}),\s*(\d{4})\b/\<close> and \<^verbatim>\<open>/\b([A-Za-z]+)\s+(\d{4})\b/\<close>.\<close>

definition reCommaYear :: regex where
  "reCommaYear =
     cat [Star True (Chr CSpace), chr CHR '','', Star True (Chr CSpace), Grp 1 (rep 4 (Chr CDigit))]"

definition reIso :: regex where
  "reIso =
     cat [WordB, Grp 1 (rep 4 (Chr CDigit)), chr CHR ''-'', Grp 2 (rep 2 (Chr CDigit)),
          chr CHR ''-'', Grp 3 (rep 2 (Chr CDigit)), WordB]"

definition reLetter :: regex where
  "reLetter = Chr (COneOf [CRange 65 90, CRange 97 122])"

definition reLong :: regex where
  "reLong =
     cat [WordB, Grp 1 (many1 True reLetter), many1 True (Chr CSpace),
          Grp 2 (Seq (Chr CDigit) (repUpTo 1 (Chr CDigit))), chr CHR '','',
          Star True (Chr CSpace), Grp 3 (rep 4 (Chr CDigit)), WordB]"

definition reMonthYear :: regex where
  "reMonthYear =
     cat [WordB, Grp 1 (many1 True reLetter), many1 True (Chr CSpace),
          Grp 2 (rep 4 (Chr CDigit)), WordB]"

text \<open>The text of a group in a template or in \<open>$1\<close>.\<close>

definition groupText :: "rmatch \<Rightarrow> nat \<Rightarrow> jsstring" where
  "groupText m n = (case mgroup m n of None \<Rightarrow> [] | Some s \<Rightarrow> s)"

text \<open>\<open>toISODateLoose\<close>: the fallback formats the host's time value with the UTC getters; the two
  month rules and the embedded-token rule come first, in the order of the source, and need
  no host.\<close>

definition fallbackDate :: "dateParse \<Rightarrow> jsstring \<Rightarrow> jsstring option" where
  "fallbackDate dp cleaned =
     (case dp cleaned of
        None \<Rightarrow> None
      | Some t \<Rightarrow>
          Some (showInt (getUTCFullYear t) @ js ''-'' @ padStart2 (showInt (getUTCMonth t + 1))
                  @ js ''-'' @ padStart2 (showInt (getUTCDate t))))"

definition monthYearDate :: "jsstring \<Rightarrow> jsstring option" where
  "monthYearDate cleaned =
     (case search False False reMonthYear cleaned of
        None \<Rightarrow> None
      | Some m \<Rightarrow>
          (case monthToNum (groupText m 1) of
             None \<Rightarrow> None
           | Some mm \<Rightarrow> Some (groupText m 2 @ js ''-'' @ padStart2 (monthString mm) @ js ''-01'')))"

definition longDate :: "jsstring \<Rightarrow> jsstring option" where
  "longDate cleaned =
     (case search False False reLong cleaned of
        None \<Rightarrow> None
      | Some m \<Rightarrow>
          (case monthToNum (groupText m 1) of
             None \<Rightarrow> None
           | Some mm \<Rightarrow>
               Some (groupText m 3 @ js ''-'' @ padStart2 (monthString mm) @ js ''-''
                       @ padStart2 (groupText m 2))))"

definition patternDate :: "jsstring \<Rightarrow> jsstring option" where
  "patternDate cleaned =
     (case search False False reIso cleaned of
        Some im \<Rightarrow> Some (mtext im)
      | None \<Rightarrow>
          (case longDate cleaned of
             Some r \<Rightarrow> Some r
           | None \<Rightarrow> monthYearDate cleaned))"

definition cleanDate :: "jsstring \<Rightarrow> jsstring" where
  "cleanDate raw = trim (replaceFirst False False reCommaYear (\<lambda>m. 32 # groupText m 1) raw)"

definition toISODateLoose :: "dateParse \<Rightarrow> jsstring \<Rightarrow> jsstring option" where
  "toISODateLoose dp raw =
     (if raw = [] then None
      else (case patternDate (cleanDate raw) of
              Some r \<Rightarrow> Some r
            | None \<Rightarrow> fallbackDate dp (cleanDate raw)))"

text \<open>\<open>split\<close> at the newline and \<open>indent\<close>.\<close>

fun splitOn :: "jschar \<Rightarrow> jsstring \<Rightarrow> jsstring list" where
  "splitOn d [] = [[]]"
| "splitOn d (c # cs) =
     (if c = d then [] # splitOn d cs
      else (case splitOn d cs of
              [] \<Rightarrow> [[c]]
            | l # ls \<Rightarrow> (c # l) # ls))"

definition indent :: "jsstring \<Rightarrow> nat \<Rightarrow> jsstring" where
  "indent text spaces =
     join [10] (map (\<lambda>l. if l \<noteq> [] then replicate spaces 32 @ l else l) (splitOn 10 text))"

text \<open>\<^verbatim>\<open>/^(Docker\s+\w+)\s+([0-9]+\.[0-9]+(?:\.[0-9]+)?)/i\<close>,
  \<^verbatim>\<open>/^(.*?)[\s:,-]*v?([0-9]+\.[0-9]+(?:\.[0-9]+)?)(?:\b|[^0-9])/i\<close>,
  \<^verbatim>\<open>/[:\-\u2013]+$/\<close> (colon, hyphen, en dash) and \<^verbatim>\<open>/^(Docker(?:\s+\w+)*)(?::|\s|$)/i\<close>.\<close>

definition reDockerVersion :: regex where
  "reDockerVersion =
     cat [Bol, Grp 1 (cat [lit ''Docker'', many1 True (Chr CSpace), many1 True (Chr CWord)]),
          many1 True (Chr CSpace),
          Grp 2 (cat [many1 True (Chr (CRange 48 57)), chr CHR ''.'', many1 True (Chr (CRange 48 57)),
                      Opt (cat [chr CHR ''.'', many1 True (Chr (CRange 48 57))])])]"

definition reGenericVersion :: regex where
  "reGenericVersion =
     cat [Bol, Grp 1 (Star False (Chr CDot)),
          Star True (Chr (COneOf [CSpace, CChar 58, CChar 44, CChar 45])),
          Opt (chr CHR ''v''),
          Grp 2 (cat [many1 True (Chr (CRange 48 57)), chr CHR ''.'', many1 True (Chr (CRange 48 57)),
                      Opt (cat [chr CHR ''.'', many1 True (Chr (CRange 48 57))])]),
          Alt WordB (Chr (CNot (CRange 48 57)))]"

definition reTrailingPunct :: regex where
  "reTrailingPunct = cat [many1 True (Chr (COneOf [CChar 58, CChar 45, CChar 8211])), Eol]"

definition reDockerProduct :: regex where
  "reDockerProduct =
     cat [Bol, Grp 1 (cat [lit ''Docker'', Star True (cat [many1 True (Chr CSpace), many1 True (Chr CWord)])]),
          Alt (chr CHR '':'') (Alt (Chr CSpace) Eol)]"

definition orNull :: "jsstring \<Rightarrow> jsstring option" where
  "orNull s = (if s \<noteq> [] then Some s else None)"

definition extractProductAndVersion :: "jsstring \<Rightarrow> error + (jsstring option \<times> jsstring option)" where
  "extractProductAndVersion title =
     (case search True False reDockerVersion title of
        Some m \<Rightarrow>
          (case mgroup m 1 of
             None \<Rightarrow> Inl TypeError
           | Some p \<Rightarrow> Inr (Some (trim p), mgroup m 2))
      | None \<Rightarrow>
          (case search True False reGenericVersion title of
             Some m2 \<Rightarrow>
               (case mgroup m2 1 of
                  None \<Rightarrow> Inl TypeError
                | Some p \<Rightarrow>
                    Inr (orNull (trim (replaceFirst False False reTrailingPunct (\<lambda>_. []) (trim p))),
                         mgroup m2 2))
           | None \<Rightarrow>
               (case search True False reDockerProduct title of
                  Some m3 \<Rightarrow>
                    (case mgroup m3 1 of
                       None \<Rightarrow> Inl TypeError
                     | Some p \<Rightarrow> Inr (Some (trim p), None))
                | None \<Rightarrow> Inr (None, None))))"


section \<open>parseSecurityAnnouncements\<close>

record announcement =
  title :: jsstring
  lastUpdatedISO :: "jsstring option"
  lastUpdatedRaw :: "jsstring option"
  product :: "jsstring option"
  productVersion :: "jsstring option"
  cves :: "jsstring list"
  detailsMarkdown :: jsstring

text \<open>\<^verbatim>\<open>/^##\s+([^\n]+?)\s*\n([\s\S]*?)(?=^##\s+|\Z)/gm\<close>, \<^verbatim>\<open>/^_Last updated\s+(.+?)_$/im\<close>,
  \<^verbatim>\<open>/CVE-\d{4}-\d{4,7}/gi\<close> and \<^verbatim>\<open>/^\s*>\s*\[!\w+\]\s*$/gim\<close>.\<close>

definition reSecuritySection :: regex where
  "reSecuritySection =
     cat [Bol, lit ''##'', many1 True (Chr CSpace),
          Grp 1 (many1 False (Chr (CNot (CChar 10)))),
          Star True (Chr CSpace),
          Chr (CChar 10),
          Grp 2 (Star False (Chr (COneOf [CSpace, CNot CSpace]))),
          Look (Alt (cat [Bol, lit ''##'', many1 True (Chr CSpace)]) (chr CHR ''Z''))]"

definition reLastUpdated :: regex where
  "reLastUpdated =
     cat [Bol, lit ''_Last updated'', many1 True (Chr CSpace), Grp 1 (many1 False (Chr CDot)),
          chr CHR ''_'', Eol]"

definition reCve :: regex where
  "reCve =
     cat [lit ''CVE-'', rep 4 (Chr CDigit), chr CHR ''-'', rep 4 (Chr CDigit),
          repUpTo 3 (Chr CDigit)]"

definition reSecurityAdmonition :: regex where
  "reSecurityAdmonition =
     cat [Bol, Star True (Chr CSpace), chr CHR ''>'', Star True (Chr CSpace), lit ''[!'',
          many1 True (Chr CWord), chr CHR '']'', Star True (Chr CSpace), Eol]"

text \<open>\<open>replace\<close> with a string as pattern replaces its first occurrence.\<close>

fun replaceString :: "jsstring \<Rightarrow> jsstring \<Rightarrow> jsstring \<Rightarrow> jsstring" where
  "replaceString pat r [] = (if pat = [] then r else [])"
| "replaceString pat r (c # cs) =
     (if take (length pat) (c # cs) = pat then r @ drop (length pat) (c # cs)
      else c # replaceString pat r cs)"

text \<open>\<open>Array.from(new Set(matches)).sort()\<close>: the first occurrence of each match is kept and the
  default sort compares code units.\<close>

definition extractCves :: "jsstring \<Rightarrow> jsstring \<Rightarrow> jsstring list" where
  "extractCves t body =
     sort (rev (remdups (rev (matchAllFrom True False reCve [] (t @ [10] @ body)))))"

definition cleanSecurity :: "jsstring \<Rightarrow> jsstring" where
  "cleanSecurity body =
     trim (replaceAll False True reTrailingBlanks []
            (replaceAll True True reSecurityAdmonition (js ''>'') body))"

definition stripRssButton :: "jsstring \<Rightarrow> jsstring" where
  "stripRssButton body = trim (replaceAll True False (reShortcode ''rss-button'') [] body)"

definition lastUpdated ::
  "dateParse \<Rightarrow> jsstring \<Rightarrow> error + (jsstring option \<times> jsstring option \<times> jsstring)" where
  "lastUpdated dp body =
     (case search True True reLastUpdated body of
        None \<Rightarrow> Inr (None, None, body)
      | Some lm \<Rightarrow>
          (case mgroup lm 1 of
             None \<Rightarrow> Inl TypeError
           | Some g \<Rightarrow>
               Inr (Some (trim g), toISODateLoose dp (trim g),
                    trim (replaceString (mtext lm) [] body))))"

definition securityBlock :: "dateParse \<Rightarrow> rmatch \<Rightarrow> error + announcement" where
  "securityBlock dp m =
     (case mgroup m 1 of
        None \<Rightarrow> Inl TypeError
      | Some h \<Rightarrow>
          (case mgroup m 2 of
             None \<Rightarrow> Inl TypeError
           | Some b \<Rightarrow>
               (case lastUpdated dp (stripRssButton (trim b)) of
                  Inl e \<Rightarrow> Inl e
                | Inr (raw, isoDate, body) \<Rightarrow>
                    (case extractProductAndVersion (trim h) of
                       Inl e \<Rightarrow> Inl e
                     | Inr (p, v) \<Rightarrow>
                         Inr \<lparr>title = trim h, lastUpdatedISO = isoDate, lastUpdatedRaw = raw,
                              product = p, productVersion = v,
                              cves = extractCves (trim h) body,
                              detailsMarkdown = cleanSecurity body\<rparr>))))"

text \<open>The comparator of the sort,
  \<^verbatim>\<open>(a, b) => (b.lastUpdatedISO || "").localeCompare(a.lastUpdatedISO || "")\<close>, asks the
  host's collation. \<open>Array.prototype.sort\<close> is stable: it puts \<open>x\<close> before \<open>y\<close> when the
  comparator is negative on them and keeps the order of elements the comparator does not
  separate, so for a comparator that is consistent, as a collation is, its result is that of
  the insertion sort \<open>sortBy\<close>.\<close>

definition orEmpty :: "jsstring option \<Rightarrow> jsstring" where
  "orEmpty v = orElse v []"

definition compareAnnouncements :: "host \<Rightarrow> announcement \<Rightarrow> announcement \<Rightarrow> int" where
  "compareAnnouncements h a b =
     localeCompare h (orEmpty (lastUpdatedISO b)) (orEmpty (lastUpdatedISO a))"

fun insertBy :: "('a \<Rightarrow> 'a \<Rightarrow> int) \<Rightarrow> 'a \<Rightarrow> 'a list \<Rightarrow> 'a list" where
  "insertBy cmp x [] = [x]"
| "insertBy cmp x (y # ys) = (if cmp x y \<le> 0 then x # y # ys else y # insertBy cmp x ys)"

definition sortBy :: "('a \<Rightarrow> 'a \<Rightarrow> int) \<Rightarrow> 'a list \<Rightarrow> 'a list" where
  "sortBy cmp xs = foldr (insertBy cmp) xs []"

definition rankAnnouncements :: "host \<Rightarrow> announcement list \<Rightarrow> int \<Rightarrow> announcement list" where
  "rankAnnouncements h blocks limit =
     slice0 (sortBy (compareAnnouncements h) (filter (\<lambda>b. truthy (lastUpdatedISO b)) blocks)
               @ filter (\<lambda>b. \<not> truthy (lastUpdatedISO b)) blocks)
            limit"

text \<open>\<open>formatAnnouncementsForLLM\<close>: per record a heading line after an empty line, the bullets
  for product, version and CVEs when there are any, \<open>Details:\<close> and the indented body.\<close>

definition metaBits :: "announcement \<Rightarrow> jsstring list" where
  "metaBits a =
     (if truthy (product a) then [js ''Product: '' @ orEmpty (product a)] else [])
     @ (if truthy (productVersion a) then [js ''Version: '' @ orEmpty (productVersion a)] else [])
     @ (if cves a \<noteq> [] then [js ''CVEs: '' @ join (js '', '') (cves a)] else [])"

definition announcementLines :: "announcement \<Rightarrow> jsstring list" where
  "announcementLines a =
     [[10] @ js ''## '' @ title a
        @ (if truthy (lastUpdatedISO a)
           then [32, 8212, 32] @ js ''updated '' @ orEmpty (lastUpdatedISO a) else [])]
     @ (if truthy (product a) \<or> truthy (productVersion a) \<or> cves a \<noteq> []
        then [join [10] (map (\<lambda>s. js ''- '' @ s) (metaBits a))]
        else [])
     @ [js ''Details:'', indent (detailsMarkdown a) 2]"

definition formatAnnouncementsForLLM :: "announcement list \<Rightarrow> jsstring" where
  "formatAnnouncementsForLLM ann = join [10] (concat (map announcementLines ann))"

text \<open>\<open>parseSecurityAnnouncements\<close> coerces its argument with \<open>String(markdown || "")\<close>.\<close>

definition securityBlocks :: "dateParse \<Rightarrow> jsstring \<Rightarrow> error + announcement list" where
  "securityBlocks dp src = execLoop False True reSecuritySection (securityBlock dp) [] src"

definition parseSecurityAnnouncements :: "host \<Rightarrow> jsvalue \<Rightarrow> int \<Rightarrow> error + jsstring" where
  "parseSecurityAnnouncements h markdown limit =
     (case securityBlocks (Date_parse h)
             (normalizeNewlines (case markdown of JSString s \<Rightarrow> s | _ \<Rightarrow> [])) of
        Inl e \<Rightarrow> Inl e
      | Inr blocks \<Rightarrow> Inr (formatAnnouncementsForLLM (rankAnnouncements h blocks limit)))"

section \<open>Predicates used in the statements\<close>

text \<open>The least number of code units a pattern consumes, and whether every successful
  match of a pattern defines a given capture group.\<close>

fun minLen :: "regex \<Rightarrow> nat" where
  "minLen (Chr k) = 1"
| "minLen Eps = 0"
| "minLen (Seq a b) = minLen a + minLen b"
| "minLen (Alt a b) = min (minLen a) (minLen b)"
| "minLen (Star g a) = 0"
| "minLen (Opt a) = 0"
| "minLen (Grp n a) = minLen a"
| "minLen (Look a) = 0"
| "minLen Bol = 0"
| "minLen Eol = 0"
| "minLen WordB = 0"

fun definesGroup :: "nat \<Rightarrow> regex \<Rightarrow> bool" where
  "definesGroup n (Seq a b) = (definesGroup n a \<or> definesGroup n b)"
| "definesGroup n (Alt a b) = (definesGroup n a \<and> definesGroup n b)"
| "definesGroup n (Grp m a) = (m = n \<or> definesGroup n a)"
| "definesGroup n (Look a) = definesGroup n a"
| "definesGroup n r = False"

text \<open>The texts a pattern can consume, ignoring anchors and lookaheads, the capture
  groups a pattern mentions, and the body of the group that decides a capture.\<close>

inductive_set starSet :: "jsstring set \<Rightarrow> jsstring set" for A :: "jsstring set" where
  starSet_Nil: "[] \<in> starSet A"
| starSet_App: "u \<in> A \<Longrightarrow> v \<in> starSet A \<Longrightarrow> u @ v \<in> starSet A"

fun words :: "bool \<Rightarrow> regex \<Rightarrow> jsstring set" where
  "words ic (Chr k) = {[c] | c. cmatch ic k c}"
| "words ic Eps = {[]}"
| "words ic (Seq a b) = {u @ v | u v. u \<in> words ic a \<and> v \<in> words ic b}"
| "words ic (Alt a b) = words ic a \<union> words ic b"
| "words ic (Star g a) = starSet (words ic a)"
| "words ic (Opt a) = insert [] (words ic a)"
| "words ic (Grp n a) = words ic a"
| "words ic (Look a) = {[]}"
| "words ic Bol = {[]}"
| "words ic Eol = {[]}"
| "words ic WordB = {[]}"

fun groupsOf :: "regex \<Rightarrow> nat set" where
  "groupsOf (Seq a b) = groupsOf a \<union> groupsOf b"
| "groupsOf (Alt a b) = groupsOf a \<union> groupsOf b"
| "groupsOf (Star g a) = groupsOf a"
| "groupsOf (Opt a) = groupsOf a"
| "groupsOf (Grp n a) = insert n (groupsOf a)"
| "groupsOf (Look a) = groupsOf a"
| "groupsOf r = {}"

fun topGroup :: "nat \<Rightarrow> regex \<Rightarrow> regex option" where
  "topGroup n (Seq a b) =
     (case topGroup n b of
        Some g \<Rightarrow> Some g
      | None \<Rightarrow> if n \<in> groupsOf b then None else topGroup n a)"
| "topGroup n (Grp m a) = (if m = n then Some a else topGroup n a)"
| "topGroup n r = None"


text \<open>The body of the capture group of the version pattern.\<close>

definition reTriple :: regex where
  "reTriple =
     cat [many1 True (Chr (CRange 48 57)), chr CHR ''.'', many1 True (Chr (CRange 48 57)),
          chr CHR ''.'', many1 True (Chr (CRange 48 57))]"

definition isDottedTriple :: "jsstring \<Rightarrow> bool" where
  "isDottedTriple v =
     (case splitOn 46 v of
        [a, b, c] \<Rightarrow> a \<noteq> [] \<and> b \<noteq> [] \<and> c \<noteq> [] \<and> list_all isDigit (a @ b @ c)
      | _ \<Rightarrow> False)"

text \<open>The digest sections of an output, counted as the specification counts them: the lines
  that start with \<open>##\<close> and a blank. \<open>extraHeadings\<close> counts the lines of this kind that a
  record brings into its rendering besides its own heading line: those after the first line
  of its date and those of its body as rendered.\<close>

definition sectionCount :: "jsstring \<Rightarrow> nat" where
  "sectionCount out = length (filter (\<lambda>l. take 3 l = js ''## '') (splitOn 10 out))"

definition extraHeadings :: "release \<Rightarrow> nat" where
  "extraHeadings r =
     length (filter (\<lambda>l. take 3 l = js ''## '')
               (tl (splitOn 10 (case date r of None \<Rightarrow> [] | Some d \<Rightarrow> d))))
     + sectionCount (replaceFirst False False reLeadingSpace (\<lambda>_. []) (details r))"

text \<open>The sections of a document as the release pipeline finds them, which are the
  successive matches of the section pattern, with the offsets at which a match starts and
  ends, and the records that the pipeline builds.\<close>

definition releaseSections :: "jsstring \<Rightarrow> rmatch list" where
  "releaseSections D =
     (case execLoop False True reReleaseSection Inr [] (normalizeNewlines D) of
        Inl e \<Rightarrow> []
      | Inr sections \<Rightarrow> sections)"

definition releaseRecords :: "jsstring \<Rightarrow> release list" where
  "releaseRecords D = (case releaseBlocks (normalizeNewlines D) of Inl e \<Rightarrow> [] | Inr bs \<Rightarrow> bs)"

definition sectionStart :: "rmatch \<Rightarrow> nat" where
  "sectionStart m = length (mstart m)"

definition sectionEnd :: "rmatch \<Rightarrow> nat" where
  "sectionEnd m = length (mstart m) + length (mtext m)"

definition isDateShaped :: "jsstring \<Rightarrow> bool" where
  "isDateShaped s =
     (length s = 10 \<and> list_all isDigit (take 4 s) \<and> s ! 4 = 45
      \<and> list_all isDigit (take 2 (drop 5 s)) \<and> s ! 7 = 45 \<and> list_all isDigit (drop 8 s))"

definition digitsValue :: "jsstring \<Rightarrow> nat" where
  "digitsValue s = foldl (\<lambda>a c. 10 * a + (c - 48)) 0 s"

definition isLeapYear :: "nat \<Rightarrow> bool" where
  "isLeapYear y = (if y mod 400 = 0 then True else if y mod 100 = 0 then False else y mod 4 = 0)"

definition daysInMonth :: "nat \<Rightarrow> nat \<Rightarrow> nat" where
  "daysInMonth y m =
     (if m = 2 then (if isLeapYear y then 29 else 28)
      else if m = 4 \<or> m = 6 \<or> m = 9 \<or> m = 11 then 30 else 31)"

definition isCanonicalDate :: "jsstring \<Rightarrow> bool" where
  "isCanonicalDate s =
     (isDateShaped s
      \<and> 1 \<le> digitsValue (take 2 (drop 5 s)) \<and> digitsValue (take 2 (drop 5 s)) \<le> 12
      \<and> 1 \<le> digitsValue (drop 8 s)
      \<and> digitsValue (drop 8 s) \<le> daysInMonth (digitsValue (take 4 s)) (digitsValue (take 2 (drop 5 s))))"

text \<open>The parts of the date normaliser's answer: the embedded token that the first rule
  returns, the month field of a date-shaped string, and the month value that the rule which
  decides reads from the month table. That value is the inherited \<open>constructor\<close> entry exactly
  when no token is embedded and the month word of the deciding month rule is \<open>constructor\<close>
  in some letter case.\<close>

definition embeddedToken :: "jsstring \<Rightarrow> jsstring option" where
  "embeddedToken cleaned = map_option mtext (search False False reIso cleaned)"

definition monthField :: "jsstring \<Rightarrow> nat" where
  "monthField s = digitsValue (take 2 (drop 5 s))"

definition monthWordValue :: "regex \<Rightarrow> jsstring \<Rightarrow> monthValue option" where
  "monthWordValue re cleaned =
     (case search False False re cleaned of
        None \<Rightarrow> None
      | Some m \<Rightarrow> monthToNum (groupText m 1))"

definition usesInheritedKey :: "jsstring \<Rightarrow> bool" where
  "usesInheritedKey cleaned =
     (embeddedToken cleaned = None
      \<and> (monthWordValue reLong cleaned = Some ObjectConstructor
           \<or> (monthWordValue reLong cleaned = None
               \<and> monthWordValue reMonthYear cleaned = Some ObjectConstructor)))"

text \<open>A record is dated when its \<open>lastUpdatedISO\<close> is truthy; the sort compares the
  \<open>lastUpdatedISO\<close> values of dated records.\<close>

definition dated :: "announcement \<Rightarrow> bool" where
  "dated a = truthy (lastUpdatedISO a)"

definition isoKey :: "announcement \<Rightarrow> jsstring" where
  "isoKey a = orEmpty (lastUpdatedISO a)"

text \<open>The order of strings by code units, as a comparator. A collation in which the digits
  follow one another in their numerical order puts two strings of the shape \<open>dddd-dd-dd\<close> in
  this order. \<open>ordersByCodeUnits\<close> says that a host's collation does so on the given strings.\<close>

definition codeUnitOrder :: "jsstring \<Rightarrow> jsstring \<Rightarrow> int" where
  "codeUnitOrder a b = (if a < b then - 1 else if a = b then 0 else 1)"

definition ordersByCodeUnits :: "host \<Rightarrow> jsstring list \<Rightarrow> bool" where
  "ordersByCodeUnits h ks =
     list_all (\<lambda>x. list_all (\<lambda>y. sgn (localeCompare h x y) = codeUnitOrder x y) ks) ks"

text \<open>Two hosts for the examples, given as far as the examples ask them: one whose local time
  zone is UTC and one two hours east of UTC. \<open>Date.parse\<close> reads \<open>July 15 2024\<close> as local
  midnight, so the two hosts differ on it by two hours; \<open>Mon, 15 Jul 2024 12:00:00 GMT\<close> names
  its zone, so they agree on it. Both answer \<open>NaN\<close> on \<open>not a date\<close>; the examples ask about
  no other text. The first host collates by code units, the second skips the hyphen, as a
  collation does that ignores punctuation; on dates of the shape \<open>dddd-dd-dd\<close> the two agree.\<close>

definition hostUTC :: host where
  "hostUTC =
     \<lparr>Date_parse =
        (\<lambda>s. if s = js ''July 15 2024'' then Some 1721001600000
             else if s = js ''Mon, 15 Jul 2024 12:00:00 GMT'' then Some 1721044800000
             else None),
      localeCompare = codeUnitOrder\<rparr>"

definition hostEast :: host where
  "hostEast =
     \<lparr>Date_parse =
        (\<lambda>s. if s = js ''July 15 2024'' then Some 1720994400000
             else if s = js ''Mon, 15 Jul 2024 12:00:00 GMT'' then Some 1721044800000
             else None),
      localeCompare = (\<lambda>a b. codeUnitOrder (filter (\<lambda>c. c \<noteq> 45) a) (filter (\<lambda>c. c \<noteq> 45) b))\<rparr>"

text \<open>A record with its date normalised again by another \<open>Date.parse\<close>.\<close>

definition redated :: "dateParse \<Rightarrow> announcement \<Rightarrow> announcement" where
  "redated dp b =
     b\<lparr>lastUpdatedISO :=
         (case lastUpdatedRaw b of None \<Rightarrow> None | Some raw \<Rightarrow> toISODateLoose dp raw)\<rparr>"

text \<open>What a document makes \<open>parseSecurityAnnouncements\<close> ask the host. The last-updated
  texts of a document are the trimmed texts of the \<open>_Last updated ..._\<close> lines of its sections;
  they do not depend on the host. \<open>Date.parse\<close> is asked about the cleaned form of those that
  none of the three date patterns resolves, and \<open>localeCompare\<close> about the dates that result.
  \<open>sameDates\<close> and \<open>sameOrder\<close> say that two hosts give the same answers to these questions:
  the same UTC date for each such text, and the same sign for each pair of dates.\<close>

definition lastUpdatedTexts :: "jsstring \<Rightarrow> jsstring list" where
  "lastUpdatedTexts s =
     (case securityBlocks (\<lambda>_. None) (normalizeNewlines s) of
        Inl e \<Rightarrow> []
      | Inr bs \<Rightarrow> List.map_filter lastUpdatedRaw bs)"

definition unresolvedTexts :: "jsstring \<Rightarrow> jsstring list" where
  "unresolvedTexts s =
     filter (\<lambda>raw. raw \<noteq> [] \<and> patternDate (cleanDate raw) = None) (lastUpdatedTexts s)"

definition dateKeys :: "host \<Rightarrow> jsstring \<Rightarrow> jsstring list" where
  "dateKeys h s = List.map_filter (toISODateLoose (Date_parse h)) (lastUpdatedTexts s)"

definition sameDates :: "host \<Rightarrow> host \<Rightarrow> jsstring \<Rightarrow> bool" where
  "sameDates h h' s =
     list_all (\<lambda>raw. fallbackDate (Date_parse h) (cleanDate raw)
                       = fallbackDate (Date_parse h') (cleanDate raw))
              (unresolvedTexts s)"

definition sameOrder :: "host \<Rightarrow> host \<Rightarrow> jsstring list \<Rightarrow> bool" where
  "sameOrder h h' ks =
     list_all (\<lambda>x. list_all (\<lambda>y. sgn (localeCompare h x y) = sgn (localeCompare h' x y)) ks) ks"

text \<open>Stripping trailing horizontal whitespace from every line, in the spec's words: a
  blank or tab is dropped when the run of blanks and tabs it belongs to reaches the end
  of its line. The code does this with a regular expression; the two are compared below.\<close>

definition isBlank :: "jschar \<Rightarrow> bool" where
  "isBlank c = (c = 32 \<or> c = 9)"

definition atLineEnd :: "jsstring \<Rightarrow> bool" where
  "atLineEnd s = (case s of [] \<Rightarrow> True | c # _ \<Rightarrow> isLineTerminator c)"

fun stripLineEnds :: "jsstring \<Rightarrow> jsstring" where
  "stripLineEnds [] = []"
| "stripLineEnds (c # cs) =
     (if isBlank c \<and> atLineEnd (dropWhile isBlank cs) then stripLineEnds cs
      else c # stripLineEnds cs)"





section \<open>Evaluation rules\<close>

declare replaceAllFrom.simps [simp del] matchAllFrom.simps [simp del] execLoop.simps [simp del]
  showNat.simps [simp del]

lemma rep_numeral: "rep (numeral k) r = Seq r (rep (pred_numeral k) r)"
  by (simp add: numeral_eq_Suc)

lemma repUpTo_numeral: "repUpTo (numeral k) r = Opt (Seq r (repUpTo (pred_numeral k) r))"
  by (simp add: numeral_eq_Suc)

lemma rep_one: "rep 1 r = Seq r Eps" "repUpTo 1 r = Opt (Seq r Eps)"
  by simp_all

lemma replaceAllFrom_Nil:
  "replaceAllFrom ic ml r rp pre [] = (case matchAt ic ml r pre [] of Some m \<Rightarrow> rp | None \<Rightarrow> [])"
  by (subst replaceAllFrom.simps) (simp split: option.splits)

lemma replaceAllFrom_Cons:
  "replaceAllFrom ic ml r rp pre (c # cs) =
     (case matchAt ic ml r pre (c # cs) of
        Some m \<Rightarrow>
          if length (mrest m) < Suc (length cs)
          then rp @ replaceAllFrom ic ml r rp (rev (mtext m) @ pre) (mrest m)
          else rp @ c # replaceAllFrom ic ml r rp (c # pre) cs
      | None \<Rightarrow> c # replaceAllFrom ic ml r rp (c # pre) cs)"
  by (subst replaceAllFrom.simps) (simp split: option.splits)

lemma matchAllFrom_Nil:
  "matchAllFrom ic ml r pre [] = (case matchAt ic ml r pre [] of Some m \<Rightarrow> [mtext m] | None \<Rightarrow> [])"
  by (subst matchAllFrom.simps) (simp split: option.splits)

lemma matchAllFrom_Cons:
  "matchAllFrom ic ml r pre (c # cs) =
     (case matchAt ic ml r pre (c # cs) of
        Some m \<Rightarrow>
          if length (mrest m) < Suc (length cs)
          then mtext m # matchAllFrom ic ml r (rev (mtext m) @ pre) (mrest m)
          else mtext m # matchAllFrom ic ml r (c # pre) cs
      | None \<Rightarrow> matchAllFrom ic ml r (c # pre) cs)"
  by (subst matchAllFrom.simps) (simp split: option.splits)

lemma execLoop_Nil:
  "execLoop ic ml r f pre [] =
     (case searchFrom ic ml r pre [] of
        None \<Rightarrow> Inr []
      | Some m \<Rightarrow> (case f m of Inl e \<Rightarrow> Inl e | Inr b \<Rightarrow> Inl NonTermination))"
  by (subst execLoop.simps) (simp split: option.splits sum.splits)

lemma execLoop_Cons:
  "execLoop ic ml r f pre (c # cs) =
     (case searchFrom ic ml r pre (c # cs) of
        None \<Rightarrow> Inr []
      | Some m \<Rightarrow>
          (case f m of
             Inl e \<Rightarrow> Inl e
           | Inr b \<Rightarrow>
               if length (mrest m) < Suc (length cs)
               then (case execLoop ic ml r f (rev (mtext m) @ mstart m) (mrest m) of
                       Inl e \<Rightarrow> Inl e
                     | Inr bs \<Rightarrow> Inr (b # bs))
               else Inl NonTermination))"
  by (subst execLoop.simps) (auto split: option.splits sum.splits)

lemma showNat_numeral:
  "showNat (numeral k) =
     (if (numeral k :: nat) < 10 then [48 + numeral k]
      else showNat (numeral k div 10) @ [48 + numeral k mod 10])"
  by (rule showNat.simps)

lemma showNat_small: "showNat 0 = [48]" "showNat (Suc 0) = [49]"
  by (simp_all add: showNat.simps[of 0] showNat.simps[of "Suc 0"])

lemmas regex_defs = rep_numeral repUpTo_numeral rep_one cat_def lit_def chr_def many1_def
  reNewline_def reReleaseSection_def reVersion_def reReleaseDate_def reShortcode_def
  reAdmonition_def reTrailingBlanks_def reLeadingSpace_def reCommaYear_def reIso_def
  reLetter_def reLong_def reMonthYear_def reDockerVersion_def reGenericVersion_def
  reTrailingPunct_def reDockerProduct_def reSecuritySection_def reLastUpdated_def reCve_def
  reSecurityAdmonition_def

lemmas class_defs = isSpace_def isWhiteSpace_def isLineTerminator_def isDigit_def isWordChar_def
  canonicalize_def caseVariants_def

lemmas string_defs = ms.simps(5,6) normalizeNewlines_def js_def matchAt_def remaining_def replaceAll_def search_def replaceFirst_def
  trim_def slice0_def truthy_def orElse_def orEmpty_def groupText_def orNull_def
  replaceAllFrom_Nil replaceAllFrom_Cons matchAllFrom_Nil matchAllFrom_Cons
  execLoop_Nil execLoop_Cons

lemmas date_defs = epochDay_def dayOfEra_def yearOfEra_def dayOfYear_def monthFromMarch_def
  civilMonth_def civilDay_def civilYear_def getUTCFullYear_def getUTCMonth_def getUTCDate_def
  showNat_numeral showNat_small showInt_def padStart2_def toLowerCase_def monthTable_def
  monthToNum_def monthString_def fallbackDate_def monthYearDate_def longDate_def patternDate_def
  cleanDate_def toISODateLoose_def

lemmas release_defs = normalizeNewlines_def stripShortcodes_def cleanRelease_def
  releaseVersion_def releaseDate_def releaseBlock_def renderRelease_def releaseBlocks_def
  parseReleases_def

lemmas security_defs = indent_def extractProductAndVersion_def extractCves_def cleanSecurity_def
  stripRssButton_def lastUpdated_def securityBlock_def
  compareAnnouncements_def sortBy_def rankAnnouncements_def metaBits_def announcementLines_def
  formatAnnouncementsForLLM_def securityBlocks_def parseSecurityAnnouncements_def

lemmas eval_defs = regex_defs class_defs string_defs

section \<open>General facts about the matcher\<close>

lemmas ms_Star = ms.simps(5,6)

declare ms_Star [simp del]

lemma ms_Seq_iff:
  "st' \<in> set (ms ic ml (Seq a b) st) \<longleftrightarrow> (\<exists>mid \<in> set (ms ic ml a st). st' \<in> set (ms ic ml b mid))"
  by auto

lemma ms_minLen:
  "st' \<in> set (ms ic ml r st) \<Longrightarrow> remaining st' + minLen r \<le> remaining st"
proof (induction ic ml r st arbitrary: st' rule: ms.induct)
  case (1 ic ml k st)
  then show ?case
    by (cases "fst (snd st)") (auto simp: remaining_def split: if_splits)
next
  case (3 ic ml a b st)
  from "3.prems" obtain mid where mid: "mid \<in> set (ms ic ml a st)" and st': "st' \<in> set (ms ic ml b mid)"
    by auto
  from "3.IH"(1)[OF mid] "3.IH"(2)[OF mid st'] show ?case
    by simp
next
  case (4 ic ml a b st)
  then show ?case
    by (auto simp: min_def dest!: "4.IH"(1) "4.IH"(2))
next
  case (5 ic ml a st)
  from "5.prems" consider "st' = st"
    | mid where "mid \<in> set (ms ic ml a st)" "remaining mid < remaining st"
        "st' \<in> set (ms ic ml (Star True a) mid)"
    by (subst (asm) ms_Star) (auto split: if_splits)
  then show ?case
  proof cases
    case 1
    then show ?thesis by simp
  next
    case 2
    from "5.IH"(2)[OF 2(1) 2(2) 2(3)] 2(2) show ?thesis by simp
  qed
next
  case (6 ic ml a st)
  from "6.prems" consider "st' = st"
    | mid where "mid \<in> set (ms ic ml a st)" "remaining mid < remaining st"
        "st' \<in> set (ms ic ml (Star False a) mid)"
    by (subst (asm) ms_Star) (auto split: if_splits)
  then show ?case
  proof cases
    case 1
    then show ?thesis by simp
  next
    case 2
    from "6.IH"(2)[OF 2(1) 2(2) 2(3)] 2(2) show ?thesis by simp
  qed
next
  case (8 ic ml n a st)
  then show ?case
    by (auto simp: remaining_def)
next
  case (9 ic ml a st)
  then show ?case
    by (auto simp: remaining_def split: list.splits)
qed (auto split: if_splits)

lemma ms_remaining_le: "st' \<in> set (ms ic ml r st) \<Longrightarrow> remaining st' \<le> remaining st"
  using ms_minLen[of st' ic ml r st] by simp

lemma ms_caps_kept:
  "st' \<in> set (ms ic ml r st) \<Longrightarrow> snd (snd st) n \<noteq> None \<Longrightarrow> snd (snd st') n \<noteq> None"
proof (induction ic ml r st arbitrary: st' rule: ms.induct)
  case (1 ic ml k st)
  then show ?case
    by (cases "fst (snd st)") (auto split: if_splits)
next
  case (3 ic ml a b st)
  from "3.prems"(1) obtain mid where mid: "mid \<in> set (ms ic ml a st)" and st': "st' \<in> set (ms ic ml b mid)"
    by auto
  from "3.IH"(2)[OF mid st' "3.IH"(1)[OF mid "3.prems"(2)]] show ?case .
next
  case (5 ic ml a st)
  from "5.prems"(1) consider "st' = st"
    | mid where "mid \<in> set (ms ic ml a st)" "remaining mid < remaining st"
        "st' \<in> set (ms ic ml (Star True a) mid)"
    by (subst (asm) ms_Star) (auto split: if_splits)
  then show ?case
  proof cases
    case 1
    with "5.prems"(2) show ?thesis by simp
  next
    case 2
    from "5.IH"(2)[OF 2(1) 2(2) 2(3) "5.IH"(1)[OF 2(1) "5.prems"(2)]] show ?thesis .
  qed
next
  case (6 ic ml a st)
  from "6.prems"(1) consider "st' = st"
    | mid where "mid \<in> set (ms ic ml a st)" "remaining mid < remaining st"
        "st' \<in> set (ms ic ml (Star False a) mid)"
    by (subst (asm) ms_Star) (auto split: if_splits)
  then show ?case
  proof cases
    case 1
    with "6.prems"(2) show ?thesis by simp
  next
    case 2
    from "6.IH"(2)[OF 2(1) 2(2) 2(3) "6.IH"(1)[OF 2(1) "6.prems"(2)]] show ?thesis .
  qed
next
  case (9 ic ml a st)
  show ?case
  proof (cases "ms ic ml a st")
    case Nil
    with "9.prems"(1) show ?thesis by simp
  next
    case (Cons h t)
    then have "h \<in> set (ms ic ml a st)" by simp
    from "9.IH"[OF this "9.prems"(2)] Cons "9.prems"(1) show ?thesis by simp
  qed
qed (auto split: if_splits)

lemma ms_definesGroup:
  "st' \<in> set (ms ic ml r st) \<Longrightarrow> definesGroup n r \<Longrightarrow> snd (snd st') n \<noteq> None"
proof (induction ic ml r st arbitrary: st' rule: ms.induct)
  case (3 ic ml a b st)
  from "3.prems"(1) obtain mid where mid: "mid \<in> set (ms ic ml a st)" and st': "st' \<in> set (ms ic ml b mid)"
    by auto
  from "3.prems"(2) consider "definesGroup n a" | "definesGroup n b" by auto
  then show ?case
  proof cases
    case 1
    from ms_caps_kept[OF st' "3.IH"(1)[OF mid 1]] show ?thesis .
  next
    case 2
    from "3.IH"(2)[OF mid st' 2] show ?thesis .
  qed
next
  case (4 ic ml a b st)
  from "4.prems" consider "st' \<in> set (ms ic ml a st)" "definesGroup n a"
    | "st' \<in> set (ms ic ml b st)" "definesGroup n b"
    by auto
  then show ?case
    by cases (rule "4.IH"(1), assumption+, rule "4.IH"(2), assumption+)
next
  case (8 ic ml m a st)
  from "8.prems"(1) obtain mid where mid: "mid \<in> set (ms ic ml a st)"
    and st': "snd (snd st') = (snd (snd mid))(m \<mapsto> take (remaining st - remaining mid) (fst (snd st)))"
    by auto
  show ?case
  proof (cases "m = n")
    case True
    with st' show ?thesis by simp
  next
    case False
    with "8.prems"(2) have "definesGroup n a" by simp
    from "8.IH"[OF mid this] st' False show ?thesis by simp
  qed
next
  case (9 ic ml a st)
  show ?case
  proof (cases "ms ic ml a st")
    case Nil
    with "9.prems"(1) show ?thesis by simp
  next
    case (Cons h t)
    then have "h \<in> set (ms ic ml a st)" by simp
    from "9.IH"[OF this] "9.prems"(2) Cons "9.prems"(1) show ?thesis by simp
  qed
qed auto

lemma matchAt_SomeD:
  "matchAt ic ml r pre suf = Some m \<Longrightarrow>
     \<exists>st' \<in> set (ms ic ml r (pre, suf, \<lambda>_. None)).
        mstart m = pre \<and> mrest m = fst (snd st') \<and> mgroup m = snd (snd st')
        \<and> mtext m = take (length suf - remaining st') suf"
  by (cases "ms ic ml r (pre, suf, \<lambda>_. None)") (auto simp: matchAt_def)

lemma matchAt_progress:
  "matchAt ic ml r pre suf = Some m \<Longrightarrow> length (mrest m) + minLen r \<le> length suf"
  by (drule matchAt_SomeD) (auto dest: ms_minLen simp: remaining_def)

lemma matchAt_group:
  "matchAt ic ml r pre suf = Some m \<Longrightarrow> definesGroup n r \<Longrightarrow> mgroup m n \<noteq> None"
  by (drule matchAt_SomeD) (auto dest: ms_definesGroup)

lemma searchFrom_SomeD:
  "searchFrom ic ml r pre suf = Some m \<Longrightarrow>
     \<exists>pre' suf'. matchAt ic ml r pre' suf' = Some m \<and> length suf' \<le> length suf"
proof (induction suf arbitrary: pre)
  case Nil
  then show ?case by auto
next
  case (Cons c cs)
  show ?case
  proof (cases "matchAt ic ml r pre (c # cs)")
    case None
    with Cons.prems have "searchFrom ic ml r (c # pre) cs = Some m" by simp
    from Cons.IH[OF this] obtain pre' suf' where "matchAt ic ml r pre' suf' = Some m"
      and "length suf' \<le> length cs"
      by blast
    then have "matchAt ic ml r pre' suf' = Some m \<and> length suf' \<le> length (c # cs)"
      by simp
    then show ?thesis by blast
  next
    case (Some m')
    with Cons.prems have "matchAt ic ml r pre (c # cs) = Some m" by simp
    then show ?thesis by blast
  qed
qed

lemma searchFrom_progress:
  "searchFrom ic ml r pre suf = Some m \<Longrightarrow> 0 < minLen r \<Longrightarrow> length (mrest m) < length suf"
  by (drule searchFrom_SomeD) (auto dest!: matchAt_progress)

lemma searchFrom_group:
  "searchFrom ic ml r pre suf = Some m \<Longrightarrow> definesGroup n r \<Longrightarrow> mgroup m n \<noteq> None"
  by (drule searchFrom_SomeD) (auto dest: matchAt_group)

lemma execLoop_returns:
  assumes len: "0 < minLen r"
    and f: "\<And>m pre suf. searchFrom ic ml r pre suf = Some m \<Longrightarrow> \<exists>b. f m = Inr b"
  shows "\<exists>bs. execLoop ic ml r f pre suf = Inr bs"
  using assms
proof (induction ic ml r f pre suf rule: execLoop.induct)
  case (1 ic ml r f pre suf)
  show ?case
  proof (cases "searchFrom ic ml r pre suf")
    case None
    then show ?thesis by (subst execLoop.simps) simp
  next
    case (Some m)
    from "1.prems"(2)[OF Some] obtain b where b: "f m = Inr b" by blast
    from searchFrom_progress[OF Some "1.prems"(1)] have lt: "length (mrest m) < length suf" .
    from "1.IH"[OF Some b lt "1.prems"(1)] "1.prems"(2)
    obtain bs where "execLoop ic ml r f (rev (mtext m) @ mstart m) (mrest m) = Inr bs"
      by blast
    with Some b lt show ?thesis by (subst execLoop.simps) simp
  qed
qed

section \<open>What a match consumes and captures\<close>

lemma ms_words:
  "st' \<in> set (ms ic ml r st) \<Longrightarrow>
     \<exists>w. fst (snd st) = w @ fst (snd st') \<and> fst st' = rev w @ fst st \<and> w \<in> words ic r"
proof (induction ic ml r st arbitrary: st' rule: ms.induct)
  case (1 ic ml k st)
  then show ?case
    by (cases "fst (snd st)") (auto split: if_splits)
next
  case (3 ic ml a b st)
  from "3.prems" obtain mid where mid: "mid \<in> set (ms ic ml a st)" and st': "st' \<in> set (ms ic ml b mid)"
    by auto
  from "3.IH"(1)[OF mid] obtain u where u: "fst (snd st) = u @ fst (snd mid)"
    "fst mid = rev u @ fst st" "u \<in> words ic a"
    by blast
  from "3.IH"(2)[OF mid st'] obtain v where v: "fst (snd mid) = v @ fst (snd st')"
    "fst st' = rev v @ fst mid" "v \<in> words ic b"
    by blast
  from u v have "fst (snd st) = (u @ v) @ fst (snd st')" "fst st' = rev (u @ v) @ fst st"
    "u @ v \<in> words ic (Seq a b)"
    by auto
  then show ?case by blast
next
  case (4 ic ml a b st)
  from "4.prems" consider "st' \<in> set (ms ic ml a st)" | "st' \<in> set (ms ic ml b st)"
    by auto
  then show ?case
  proof cases
    case 1
    from "4.IH"(1)[OF 1] show ?thesis by auto
  next
    case 2
    from "4.IH"(2)[OF 2] show ?thesis by auto
  qed
next
  case (5 ic ml a st)
  from "5.prems" consider "st' = st"
    | mid where "mid \<in> set (ms ic ml a st)" "remaining mid < remaining st"
        "st' \<in> set (ms ic ml (Star True a) mid)"
    by (subst (asm) ms_Star) (auto split: if_splits)
  then show ?case
  proof cases
    case 1
    have "[] \<in> words ic (Star True a)" by (simp add: starSet_Nil)
    with 1 show ?thesis by auto
  next
    case 2
    from "5.IH"(1)[OF 2(1)] obtain u where u: "fst (snd st) = u @ fst (snd mid)"
      "fst mid = rev u @ fst st" "u \<in> words ic a"
      by blast
    from "5.IH"(2)[OF 2(1) 2(2) 2(3)] obtain v where v: "fst (snd mid) = v @ fst (snd st')"
      "fst st' = rev v @ fst mid" "v \<in> words ic (Star True a)"
      by blast
    from u v have "fst (snd st) = (u @ v) @ fst (snd st')" "fst st' = rev (u @ v) @ fst st"
      "u @ v \<in> words ic (Star True a)"
      by (auto intro: starSet_App)
    then show ?thesis by blast
  qed
next
  case (6 ic ml a st)
  from "6.prems" consider "st' = st"
    | mid where "mid \<in> set (ms ic ml a st)" "remaining mid < remaining st"
        "st' \<in> set (ms ic ml (Star False a) mid)"
    by (subst (asm) ms_Star) (auto split: if_splits)
  then show ?case
  proof cases
    case 1
    have "[] \<in> words ic (Star False a)" by (simp add: starSet_Nil)
    with 1 show ?thesis by auto
  next
    case 2
    from "6.IH"(1)[OF 2(1)] obtain u where u: "fst (snd st) = u @ fst (snd mid)"
      "fst mid = rev u @ fst st" "u \<in> words ic a"
      by blast
    from "6.IH"(2)[OF 2(1) 2(2) 2(3)] obtain v where v: "fst (snd mid) = v @ fst (snd st')"
      "fst st' = rev v @ fst mid" "v \<in> words ic (Star False a)"
      by blast
    from u v have "fst (snd st) = (u @ v) @ fst (snd st')" "fst st' = rev (u @ v) @ fst st"
      "u @ v \<in> words ic (Star False a)"
      by (auto intro: starSet_App)
    then show ?thesis by blast
  qed
next
  case (7 ic ml a st)
  from "7.prems" consider "st' = st" | "st' \<in> set (ms ic ml a st)"
    by auto
  then show ?case
  proof cases
    case 1
    then show ?thesis by auto
  next
    case 2
    from "7.IH"[OF 2] show ?thesis by auto
  qed
next
  case (8 ic ml n a st)
  from "8.prems" obtain mid where mid: "mid \<in> set (ms ic ml a st)"
    and st': "fst st' = fst mid" "fst (snd st') = fst (snd mid)"
    by auto
  from "8.IH"[OF mid] st' show ?case by auto
next
  case (9 ic ml a st)
  then show ?case
    by (cases "ms ic ml a st") auto
qed (auto split: if_splits)

lemma ms_consumed:
  assumes "st' \<in> set (ms ic ml r st)"
  shows "take (remaining st - remaining st') (fst (snd st)) \<in> words ic r"
proof -
  from ms_words[OF assms] obtain w where w: "fst (snd st) = w @ fst (snd st')" "w \<in> words ic r"
    by blast
  then have "take (remaining st - remaining st') (fst (snd st)) = w"
    by (simp add: remaining_def)
  with w show ?thesis by simp
qed

lemma ms_caps_frame:
  "st' \<in> set (ms ic ml r st) \<Longrightarrow> n \<notin> groupsOf r \<Longrightarrow> snd (snd st') n = snd (snd st) n"
proof (induction ic ml r st arbitrary: st' rule: ms.induct)
  case (1 ic ml k st)
  then show ?case
    by (cases "fst (snd st)") (auto split: if_splits)
next
  case (3 ic ml a b st)
  from "3.prems"(1) obtain mid where mid: "mid \<in> set (ms ic ml a st)" and st': "st' \<in> set (ms ic ml b mid)"
    by auto
  from "3.prems"(2) have n: "n \<notin> groupsOf a" "n \<notin> groupsOf b" by auto
  from "3.IH"(1)[OF mid n(1)] "3.IH"(2)[OF mid st' n(2)] show ?case by simp
next
  case (4 ic ml a b st)
  from "4.prems" consider "st' \<in> set (ms ic ml a st)" "n \<notin> groupsOf a"
    | "st' \<in> set (ms ic ml b st)" "n \<notin> groupsOf b"
    by auto
  then show ?case
    by cases (rule "4.IH"(1), assumption+, rule "4.IH"(2), assumption+)
next
  case (5 ic ml a st)
  from "5.prems"(1) consider "st' = st"
    | mid where "mid \<in> set (ms ic ml a st)" "remaining mid < remaining st"
        "st' \<in> set (ms ic ml (Star True a) mid)"
    by (subst (asm) ms_Star) (auto split: if_splits)
  then show ?case
  proof cases
    case 1
    then show ?thesis by simp
  next
    case 2
    from "5.prems"(2) have n: "n \<notin> groupsOf a" by simp
    from "5.IH"(1)[OF 2(1) n] "5.IH"(2)[OF 2(1) 2(2) 2(3) "5.prems"(2)] show ?thesis by simp
  qed
next
  case (6 ic ml a st)
  from "6.prems"(1) consider "st' = st"
    | mid where "mid \<in> set (ms ic ml a st)" "remaining mid < remaining st"
        "st' \<in> set (ms ic ml (Star False a) mid)"
    by (subst (asm) ms_Star) (auto split: if_splits)
  then show ?case
  proof cases
    case 1
    then show ?thesis by simp
  next
    case 2
    from "6.prems"(2) have n: "n \<notin> groupsOf a" by simp
    from "6.IH"(1)[OF 2(1) n] "6.IH"(2)[OF 2(1) 2(2) 2(3) "6.prems"(2)] show ?thesis by simp
  qed
next
  case (7 ic ml a st)
  from "7.prems" consider "st' = st" | "st' \<in> set (ms ic ml a st)" "n \<notin> groupsOf a"
    by auto
  then show ?case
  proof cases
    case 1
    then show ?thesis by simp
  next
    case 2
    from "7.IH"[OF 2] show ?thesis .
  qed
next
  case (8 ic ml m a st)
  from "8.prems"(1) obtain mid where mid: "mid \<in> set (ms ic ml a st)"
    and st': "snd (snd st') = (snd (snd mid))(m \<mapsto> take (remaining st - remaining mid) (fst (snd st)))"
    by auto
  from "8.prems"(2) have n: "m \<noteq> n" "n \<notin> groupsOf a" by auto
  from "8.IH"[OF mid n(2)] st' n(1) show ?case by simp
next
  case (9 ic ml a st)
  show ?case
  proof (cases "ms ic ml a st")
    case Nil
    with "9.prems"(1) show ?thesis by simp
  next
    case (Cons h t)
    then have "h \<in> set (ms ic ml a st)" by simp
    from "9.IH"[OF this] "9.prems" Cons show ?thesis by simp
  qed
qed (auto split: if_splits)

lemma ms_topGroup:
  "st' \<in> set (ms ic ml r st) \<Longrightarrow> topGroup n r = Some g \<Longrightarrow>
     \<exists>w. snd (snd st') n = Some w \<and> w \<in> words ic g"
proof (induction r arbitrary: st st' g)
  case (Seq a b)
  from Seq.prems(1) obtain mid where mid: "mid \<in> set (ms ic ml a st)" and st': "st' \<in> set (ms ic ml b mid)"
    by auto
  show ?case
  proof (cases "topGroup n b")
    case (Some gb)
    with Seq.prems(2) have "gb = g" by simp
    with Seq.IH(2)[OF st' Some] show ?thesis by simp
  next
    case None
    with Seq.prems(2) have n: "n \<notin> groupsOf b" and ga: "topGroup n a = Some g"
      by (auto split: if_splits)
    from Seq.IH(1)[OF mid ga] ms_caps_frame[OF st' n] show ?thesis by simp
  qed
next
  case (Grp m a)
  from Grp.prems(1) obtain mid where mid: "mid \<in> set (ms ic ml a st)"
    and st': "snd (snd st') = (snd (snd mid))(m \<mapsto> take (remaining st - remaining mid) (fst (snd st)))"
    by auto
  show ?case
  proof (cases "m = n")
    case True
    with Grp.prems(2) have "g = a" by simp
    with ms_consumed[OF mid] st' True show ?thesis by simp
  next
    case False
    with Grp.prems(2) have "topGroup n a = Some g" by simp
    from Grp.IH[OF mid this] st' False show ?thesis by simp
  qed
qed simp_all

lemma matchAt_text_words: "matchAt ic ml r pre suf = Some m \<Longrightarrow> mtext m \<in> words ic r"
proof -
  assume "matchAt ic ml r pre suf = Some m"
  from matchAt_SomeD[OF this] obtain st' where st': "st' \<in> set (ms ic ml r (pre, suf, \<lambda>_. None))"
    and t: "mtext m = take (length suf - remaining st') suf"
    by blast
  from ms_consumed[OF st'] t show ?thesis by (simp add: remaining_def)
qed

lemma matchAt_topGroup:
  "matchAt ic ml r pre suf = Some m \<Longrightarrow> topGroup n r = Some g \<Longrightarrow>
     \<exists>w. mgroup m n = Some w \<and> w \<in> words ic g"
  by (drule matchAt_SomeD) (auto dest: ms_topGroup)

lemma search_text_words: "search ic ml r s = Some m \<Longrightarrow> mtext m \<in> words ic r"
  unfolding search_def by (drule searchFrom_SomeD) (auto dest: matchAt_text_words)

lemma search_topGroup:
  "search ic ml r s = Some m \<Longrightarrow> topGroup n r = Some g \<Longrightarrow>
     \<exists>w. mgroup m n = Some w \<and> w \<in> words ic g"
  unfolding search_def by (drule searchFrom_SomeD) (auto dest: matchAt_topGroup)

lemma starSet_chars:
  "v \<in> starSet {[c] | c. P c} \<Longrightarrow> list_all P v"
  by (induction rule: starSet.induct) auto


section \<open>Facts about trimming\<close>

lemma trim_fix: "dropWhile isSpace s = s \<Longrightarrow> dropWhile isSpace (rev s) = rev s \<Longrightarrow> trim s = s"
  by (simp add: trim_def)

lemma dropWhile_fix_iff: "dropWhile P s = s \<longleftrightarrow> (s = [] \<or> \<not> P (hd s))"
proof (cases s)
  case Nil
  then show ?thesis by simp
next
  case (Cons a list)
  show ?thesis
  proof (cases "P a")
    case True
    have "length (dropWhile P list) \<le> length list" by (rule length_dropWhile_le)
    then have "dropWhile P list \<noteq> a # list" by auto
    with True Cons show ?thesis by simp
  next
    case False
    with Cons show ?thesis by simp
  qed
qed

lemma last_dropWhile: "dropWhile P z \<noteq> [] \<Longrightarrow> last (dropWhile P z) = last z"
  by (induction z) (auto split: if_splits)

lemma trim_head: "dropWhile isSpace (trim x) = trim x"
proof (cases "trim x = []")
  case True
  then show ?thesis by simp
next
  case False
  let ?y = "dropWhile isSpace x"
  from False have d: "dropWhile isSpace (rev ?y) \<noteq> []"
    by (simp add: trim_def)
  have y: "?y \<noteq> []"
  proof
    assume "?y = []"
    then have "trim x = []" by (simp only: trim_def) simp
    with False show False by simp
  qed
  have "hd (trim x) = last (dropWhile isSpace (rev ?y))"
    using d by (simp add: trim_def hd_rev)
  also have "\<dots> = last (rev ?y)"
    using d by (rule last_dropWhile)
  also have "\<dots> = hd ?y"
    using y by (simp add: last_rev)
  finally have "\<not> isSpace (hd (trim x))"
    using hd_dropWhile[OF y] by simp
  then show ?thesis by (simp add: dropWhile_fix_iff)
qed

lemma trim_last: "dropWhile isSpace (rev (trim x)) = rev (trim x)"
  by (simp add: trim_def)

lemma set_trim: "set (trim s) \<subseteq> set s"
proof -
  have "set (trim s) \<subseteq> set (dropWhile isSpace s)"
    unfolding trim_def using set_dropWhileD[of _ isSpace "rev (dropWhile isSpace s)"] by auto
  also have "\<dots> \<subseteq> set s"
    using set_dropWhileD[of _ isSpace s] by auto
  finally show ?thesis .
qed


section \<open>The insertion sort\<close>

lemma set_insertBy: "set (insertBy cmp x ys) = insert x (set ys)"
  by (induction ys) auto

lemma length_insertBy: "length (insertBy cmp x ys) = Suc (length ys)"
  by (induction ys) auto

lemma set_sortBy: "set (sortBy cmp xs) = set xs"
  by (induction xs) (simp_all add: sortBy_def set_insertBy)

lemma length_sortBy: "length (sortBy cmp xs) = length xs"
  by (induction xs) (simp_all add: sortBy_def length_insertBy)

text \<open>The sort asks the comparator only about elements of the list, and only on which side
  of zero it is.\<close>

lemma insertBy_cong:
  assumes "\<forall>y\<in>set ys. (cmp x y \<le> 0) = (cmp' x y \<le> 0)"
  shows "insertBy cmp x ys = insertBy cmp' x ys"
  using assms by (induction ys) auto

lemma sortBy_cong:
  assumes "\<forall>x\<in>set xs. \<forall>y\<in>set xs. (cmp x y \<le> 0) = (cmp' x y \<le> 0)"
  shows "sortBy cmp xs = sortBy cmp' xs"
  using assms
proof (induction xs)
  case Nil
  then show ?case by (simp add: sortBy_def)
next
  case (Cons x xs)
  then have "sortBy cmp xs = sortBy cmp' xs" by simp
  moreover from Cons.prems have "\<forall>y\<in>set (sortBy cmp' xs). (cmp x y \<le> 0) = (cmp' x y \<le> 0)"
    by (simp add: set_sortBy)
  ultimately show ?case
    by (simp add: sortBy_def insertBy_cong)
qed

text \<open>With a comparator that follows a linear order of keys on the elements of the list, the
  sort puts the keys in descending order and keeps the order of elements with equal keys.\<close>

lemma sorted_insertBy:
  fixes key :: "'a \<Rightarrow> 'k::linorder"
  assumes "\<forall>y\<in>set ys. (cmp x y \<le> 0) = (key y \<le> key x)"
    and "sorted_wrt (\<lambda>a b. key b \<le> key a) ys"
  shows "sorted_wrt (\<lambda>a b. key b \<le> key a) (insertBy cmp x ys)"
  using assms
proof (induction ys)
  case Nil
  then show ?case by simp
next
  case (Cons y ys)
  show ?case
  proof (cases "cmp x y \<le> 0")
    case True
    with Cons.prems have "key y \<le> key x" by simp
    with Cons.prems True show ?thesis by (auto intro: order_trans)
  next
    case False
    with Cons.prems have "key x \<le> key y" by auto
    with Cons False show ?thesis by (auto simp: set_insertBy)
  qed
qed

lemma filter_insertBy:
  fixes key :: "'a \<Rightarrow> 'k::linorder"
  assumes "\<forall>y\<in>set ys. (cmp x y \<le> 0) = (key y \<le> key x)"
  shows "filter (\<lambda>a. key a = k) (insertBy cmp x ys)
           = (if key x = k then x # filter (\<lambda>a. key a = k) ys else filter (\<lambda>a. key a = k) ys)"
  using assms
proof (induction ys)
  case Nil
  then show ?case by simp
next
  case (Cons y ys)
  show ?case
  proof (cases "cmp x y \<le> 0")
    case True
    then show ?thesis by simp
  next
    case False
    with Cons.prems have "key y \<noteq> key x" by auto
    with Cons False show ?thesis by auto
  qed
qed

lemma sorted_sortBy:
  fixes key :: "'a \<Rightarrow> 'k::linorder"
  assumes "\<forall>x\<in>set xs. \<forall>y\<in>set xs. (cmp x y \<le> 0) = (key y \<le> key x)"
  shows "sorted_wrt (\<lambda>a b. key b \<le> key a) (sortBy cmp xs)"
  using assms
proof (induction xs)
  case Nil
  then show ?case by (simp add: sortBy_def)
next
  case (Cons x xs)
  then have "sorted_wrt (\<lambda>a b. key b \<le> key a) (sortBy cmp xs)" by simp
  moreover from Cons.prems have "\<forall>y\<in>set (sortBy cmp xs). (cmp x y \<le> 0) = (key y \<le> key x)"
    by (simp add: set_sortBy)
  ultimately have "sorted_wrt (\<lambda>a b. key b \<le> key a) (insertBy cmp x (sortBy cmp xs))"
    by (intro sorted_insertBy)
  then show ?case by (simp add: sortBy_def)
qed

lemma stable_sortBy:
  fixes key :: "'a \<Rightarrow> 'k::linorder"
  assumes "\<forall>x\<in>set xs. \<forall>y\<in>set xs. (cmp x y \<le> 0) = (key y \<le> key x)"
  shows "filter (\<lambda>a. key a = k) (sortBy cmp xs) = filter (\<lambda>a. key a = k) xs"
  using assms
proof (induction xs)
  case Nil
  then show ?case by (simp add: sortBy_def)
next
  case (Cons x xs)
  then have "filter (\<lambda>a. key a = k) (sortBy cmp xs) = filter (\<lambda>a. key a = k) xs" by simp
  moreover from Cons.prems have "\<forall>y\<in>set (sortBy cmp xs). (cmp x y \<le> 0) = (key y \<le> key x)"
    by (simp add: set_sortBy)
  ultimately show ?case
    by (simp add: sortBy_def filter_insertBy)
qed

lemma same_sign_le:
  fixes a b :: int
  shows "sgn a = sgn b \<Longrightarrow> (a \<le> 0) = (b \<le> 0)"
  by (auto simp: sgn_if split: if_splits)

lemma codeUnitOrder_le: "(codeUnitOrder x y \<le> 0) = (x \<le> y)"
  by (auto simp: codeUnitOrder_def)

lemma sgn_codeUnitOrder: "sgn (codeUnitOrder x y) = codeUnitOrder x y"
  by (simp add: codeUnitOrder_def)

lemma compare_le_iff:
  "(compareAnnouncements h x y \<le> 0) = (localeCompare h (isoKey y) (isoKey x) \<le> 0)"
  by (simp add: compareAnnouncements_def isoKey_def)

text \<open>The rules that evaluate the ranking and the rendering of given records.\<close>

lemmas render_defs = rankAnnouncements_def sortBy_def compareAnnouncements_def codeUnitOrder_def
  formatAnnouncementsForLLM_def announcementLines_def metaBits_def indent_def orEmpty_def
  orElse_def truthy_def slice0_def js_def numeral_2_eq_2

section \<open>The matches of an exec loop\<close>

text \<open>A search returns a match of the text it is given: the text splits into what the search
  skipped, what the pattern matched and the rest.\<close>

lemma matchAt_split:
  assumes "matchAt ic ml r pre suf = Some m"
  shows "mstart m = pre \<and> suf = mtext m @ mrest m"
proof -
  from matchAt_SomeD[OF assms] obtain st' where st': "st' \<in> set (ms ic ml r (pre, suf, \<lambda>_. None))"
    and m: "mstart m = pre" "mrest m = fst (snd st')" "mtext m = take (length suf - remaining st') suf"
    by blast
  from ms_words[OF st'] obtain w where "suf = w @ fst (snd st')"
    by auto
  with m show ?thesis
    by (simp add: remaining_def)
qed

lemma searchFrom_split:
  "searchFrom ic ml r pre suf = Some m \<Longrightarrow>
     \<exists>skipped. mstart m = rev skipped @ pre \<and> suf = skipped @ mtext m @ mrest m"
proof (induction suf arbitrary: pre)
  case Nil
  then have "matchAt ic ml r pre [] = Some m" by simp
  from matchAt_split[OF this] have "mstart m = rev [] @ pre \<and> [] = [] @ mtext m @ mrest m"
    by simp
  then show ?case by blast
next
  case (Cons c cs)
  show ?case
  proof (cases "matchAt ic ml r pre (c # cs)")
    case None
    with Cons.prems have "searchFrom ic ml r (c # pre) cs = Some m" by simp
    from Cons.IH[OF this] obtain sk where "mstart m = rev sk @ c # pre"
      and "cs = sk @ mtext m @ mrest m"
      by blast
    then have "mstart m = rev (c # sk) @ pre \<and> c # cs = (c # sk) @ mtext m @ mrest m"
      by simp
    then show ?thesis by blast
  next
    case (Some m')
    with Cons.prems have "matchAt ic ml r pre (c # cs) = Some m" by simp
    from matchAt_split[OF this] have "mstart m = rev [] @ pre \<and> c # cs = [] @ mtext m @ mrest m"
      by simp
    then show ?thesis by blast
  qed
qed

lemma searchFrom_topGroup:
  "searchFrom ic ml r pre suf = Some m \<Longrightarrow> topGroup n r = Some g \<Longrightarrow>
     \<exists>w. mgroup m n = Some w \<and> w \<in> words ic g"
  by (drule searchFrom_SomeD) (auto dest: matchAt_topGroup)

text \<open>A loop that builds from every match what another loop builds, changed by \<open>g\<close>, returns
  the list of the other loop, changed by \<open>g\<close>.\<close>

lemma execLoop_map:
  assumes "\<And>m. f' m = (case f m of Inl e \<Rightarrow> Inl e | Inr b \<Rightarrow> Inr (g b))"
  shows "execLoop ic ml r f' pre suf
           = (case execLoop ic ml r f pre suf of Inl e \<Rightarrow> Inl e | Inr bs \<Rightarrow> Inr (map g bs))"
  using assms
proof (induction ic ml r f pre suf rule: execLoop.induct)
  case (1 ic ml r f pre suf)
  show ?case
  proof (cases "searchFrom ic ml r pre suf")
    case None
    then show ?thesis
      by (subst (1 2) execLoop.simps) simp
  next
    case (Some m)
    show ?thesis
    proof (cases "f m")
      case (Inl e)
      with "1.prems"[of m] have "f' m = Inl e" by simp
      with Some Inl show ?thesis
        by (subst (1 2) execLoop.simps) simp
    next
      case (Inr b)
      with "1.prems"[of m] have f': "f' m = Inr (g b)" by simp
      show ?thesis
      proof (cases "length (mrest m) < length suf")
        case True
        from "1.IH"[OF Some Inr True "1.prems"] Some Inr f' True show ?thesis
          by (subst (1 2) execLoop.simps) (simp split: sum.splits)
      next
        case False
        with Some Inr f' show ?thesis
          by (subst (1 2) execLoop.simps) simp
      qed
    qed
  qed
qed

text \<open>The loop that returns the matches themselves: they lie one after the other in the
  text, and every loop over the same pattern builds its list from them, in their order.\<close>

lemma execLoop_sections:
  assumes "execLoop ic ml r Inr pre suf = Inr sects"
  shows "sorted_wrt (\<lambda>a b. sectionEnd a \<le> sectionStart b) sects
         \<and> (\<forall>m\<in>set sects. length pre \<le> sectionStart m
                \<and> rev (mstart m) @ mtext m @ mrest m = rev pre @ suf)"
  using assms
proof (induction ic ml r "Inr :: rmatch \<Rightarrow> error + rmatch" pre suf arbitrary: sects
    rule: execLoop.induct)
  case (1 ic ml r pre suf)
  show ?case
  proof (cases "searchFrom ic ml r pre suf")
    case None
    with "1.prems" have "sects = []"
      by (subst (asm) execLoop.simps) simp
    then show ?thesis by simp
  next
    case (Some m)
    from searchFrom_split[OF Some] obtain sk where sk: "mstart m = rev sk @ pre"
      "suf = sk @ mtext m @ mrest m"
      by blast
    from "1.prems" Some obtain sects' where lt: "length (mrest m) < length suf"
      and rest: "execLoop ic ml r Inr (rev (mtext m) @ mstart m) (mrest m) = Inr sects'"
      and sects: "sects = m # sects'"
      by (subst (asm) execLoop.simps) (auto split: if_splits sum.splits)
    from "1.hyps"[OF Some refl lt rest]
    have ih: "sorted_wrt (\<lambda>a b. sectionEnd a \<le> sectionStart b) sects'"
      "\<forall>m'\<in>set sects'. length (rev (mtext m) @ mstart m) \<le> sectionStart m'
          \<and> rev (mstart m') @ mtext m' @ mrest m' = rev (rev (mtext m) @ mstart m) @ mrest m"
      by blast+
    from ih(2) sk have "\<forall>m'\<in>set sects'. sectionEnd m \<le> sectionStart m' \<and> length pre \<le> sectionStart m'
        \<and> rev (mstart m') @ mtext m' @ mrest m' = rev pre @ suf"
      by (auto simp: sectionEnd_def)
    with ih(1) sk sects show ?thesis
      by (auto simp: sectionStart_def)
  qed
qed

lemma execLoop_via_matches:
  assumes "execLoop ic ml r f pre suf = Inr bs"
  shows "\<exists>sects. execLoop ic ml r Inr pre suf = Inr sects \<and> map f sects = map Inr bs"
  using assms
proof (induction ic ml r f pre suf arbitrary: bs rule: execLoop.induct)
  case (1 ic ml r f pre suf)
  show ?case
  proof (cases "searchFrom ic ml r pre suf")
    case None
    with "1.prems" have "bs = []"
      by (subst (asm) execLoop.simps) simp
    with None show ?thesis
      by (subst execLoop.simps) simp
  next
    case (Some m)
    from "1.prems" Some obtain b bs' where b: "f m = Inr b"
      and lt: "length (mrest m) < length suf"
      and rest: "execLoop ic ml r f (rev (mtext m) @ mstart m) (mrest m) = Inr bs'"
      and bs: "bs = b # bs'"
      by (subst (asm) execLoop.simps) (auto split: if_splits sum.splits)
    from "1.IH"[OF Some b lt rest] obtain sects'
      where "execLoop ic ml r Inr (rev (mtext m) @ mstart m) (mrest m) = Inr sects'"
        and "map f sects' = map Inr bs'"
      by blast
    with Some b lt bs have "execLoop ic ml r Inr pre suf = Inr (m # sects')
        \<and> map f (m # sects') = map Inr bs"
      by (subst execLoop.simps) simp
    then show ?thesis by blast
  qed
qed

lemma execLoop_from_search:
  assumes "execLoop ic ml r f pre suf = Inr bs" and "b \<in> set bs"
  shows "\<exists>m pre' suf'. searchFrom ic ml r pre' suf' = Some m \<and> f m = Inr b"
  using assms
proof (induction ic ml r f pre suf arbitrary: bs rule: execLoop.induct)
  case (1 ic ml r f pre suf)
  show ?case
  proof (cases "searchFrom ic ml r pre suf")
    case None
    with "1.prems" show ?thesis
      by (subst (asm) execLoop.simps) simp
  next
    case (Some m)
    from "1.prems"(1) Some obtain b' bs' where b': "f m = Inr b'"
      and lt: "length (mrest m) < length suf"
      and rest: "execLoop ic ml r f (rev (mtext m) @ mstart m) (mrest m) = Inr bs'"
      and bs: "bs = b' # bs'"
      by (subst (asm) execLoop.simps) (auto split: if_splits sum.splits)
    show ?thesis
    proof (cases "b = b'")
      case True
      with Some b' show ?thesis by blast
    next
      case False
      with "1.prems"(2) bs have "b \<in> set bs'" by simp
      from "1.IH"[OF Some b' lt rest this] show ?thesis .
    qed
  qed
qed

section \<open>The loops end and the blocks are built\<close>

lemma releaseBlock_returns:
  assumes "searchFrom False True reReleaseSection pre suf = Some m"
  shows "\<exists>b. releaseBlock m = Inr b"
proof -
  have "definesGroup 1 reReleaseSection" "definesGroup 2 reReleaseSection"
    by (simp_all add: regex_defs)
  with assms have "mgroup m 1 \<noteq> None" "mgroup m 2 \<noteq> None"
    by (auto dest: searchFrom_group)
  then show ?thesis
    by (auto simp: releaseBlock_def)
qed

lemma releaseBlocks_returns: "\<exists>bs. releaseBlocks md = Inr bs"
  unfolding releaseBlocks_def
  by (rule execLoop_returns) (simp add: regex_defs, rule releaseBlock_returns)

lemma lastUpdated_returns: "\<exists>x. lastUpdated dp body = Inr x"
proof (cases "search True True reLastUpdated body")
  case None
  then show ?thesis by (simp add: lastUpdated_def)
next
  case (Some lm)
  have "definesGroup 1 reLastUpdated"
    by (simp add: regex_defs)
  with Some have "mgroup lm 1 \<noteq> None"
    by (auto simp: search_def dest: searchFrom_group)
  with Some show ?thesis
    by (auto simp: lastUpdated_def)
qed

lemma extractProductAndVersion_returns: "\<exists>x. extractProductAndVersion t = Inr x"
proof -
  have g: "definesGroup 1 reDockerVersion" "definesGroup 1 reGenericVersion"
    "definesGroup 1 reDockerProduct"
    by (simp_all add: regex_defs)
  have a: "mgroup m 1 \<noteq> None" if "search True False reDockerVersion t = Some m" for m
    using that g(1) by (auto simp: search_def dest: searchFrom_group)
  have b: "mgroup m 1 \<noteq> None" if "search True False reGenericVersion t = Some m" for m
    using that g(2) by (auto simp: search_def dest: searchFrom_group)
  have c: "mgroup m 1 \<noteq> None" if "search True False reDockerProduct t = Some m" for m
    using that g(3) by (auto simp: search_def dest: searchFrom_group)
  show ?thesis
    unfolding extractProductAndVersion_def
    by (auto split: option.splits dest: a b c)
qed

lemma securityBlock_returns:
  assumes "searchFrom False True reSecuritySection pre suf = Some m"
  shows "\<exists>b. securityBlock dp m = Inr b"
proof -
  have "definesGroup 1 reSecuritySection" "definesGroup 2 reSecuritySection"
    by (simp_all add: regex_defs)
  with assms have "mgroup m 1 \<noteq> None" "mgroup m 2 \<noteq> None"
    by (auto dest: searchFrom_group)
  then obtain h b where hb: "mgroup m 1 = Some h" "mgroup m 2 = Some b"
    by blast
  obtain raw isoDate body where lu: "lastUpdated dp (stripRssButton (trim b)) = Inr (raw, isoDate, body)"
    using lastUpdated_returns[of dp "stripRssButton (trim b)"] by (auto simp: prod_eq_iff)
  obtain p v where pv: "extractProductAndVersion (trim h) = Inr (p, v)"
    using extractProductAndVersion_returns[of "trim h"] by (auto simp: prod_eq_iff)
  from hb lu pv show ?thesis
    by (simp add: securityBlock_def)
qed

lemma securityBlocks_returns: "\<exists>bs. securityBlocks dp src = Inr bs"
  unfolding securityBlocks_def
  by (rule execLoop_returns) (simp add: regex_defs, rule securityBlock_returns)

lemma parseReleases_string_returns: "\<exists>out. parseReleases (JSString s) n = Inr out"
  using releaseBlocks_returns[of "normalizeNewlines s"] by (auto simp: parseReleases_def)

lemma parseSecurity_string_returns: "\<exists>out. parseSecurityAnnouncements h (JSString s) l = Inr out"
  using securityBlocks_returns[of "Date_parse h" "normalizeNewlines s"]
  by (auto simp: parseSecurityAnnouncements_def)

lemma securityBlocks_empty: "securityBlocks dp (normalizeNewlines []) = Inr []"
  by (simp add: eval_defs normalizeNewlines_def securityBlocks_def)

lemma parseSecurity_no_string:
  "parseSecurityAnnouncements h JSNull l = Inr []"
  "parseSecurityAnnouncements h JSUndefined l = Inr []"
  by (simp_all add: parseSecurityAnnouncements_def securityBlocks_empty rankAnnouncements_def
        sortBy_def slice0_def formatAnnouncementsForLLM_def)


section \<open>The date normaliser on sample inputs\<close>

lemma iso_sample: "toISODateLoose dp (js ''2024-07-15'') = Some (js ''2024-07-15'')"
  by (simp add: eval_defs date_defs)

lemma long_sample_falls_back:
  "toISODateLoose dp (js ''July 15, 2024'') = fallbackDate dp (js ''July 15 2024'')"
  by (simp add: eval_defs toISODateLoose_def cleanDate_def patternDate_def longDate_def
        monthYearDate_def monthToNum_def monthTable_def toLowerCase_def)

lemma month_year_sample: "toISODateLoose dp (js ''July 2024'') = Some (js ''2024-07-01'')"
  by (simp add: eval_defs date_defs)

lemma garbage_sample:
  "toISODateLoose dp (js ''not a date'') = fallbackDate dp (js ''not a date'')"
  by (simp add: eval_defs toISODateLoose_def cleanDate_def patternDate_def longDate_def
        monthYearDate_def monthToNum_def monthTable_def toLowerCase_def)

lemma fallback_east_of_utc:
  "fallbackDate (\<lambda>_. Some 1720994400000) s = Some (js ''2024-07-14'')"
  by (simp add: js_def date_defs)

lemma fallback_utc:
  "fallbackDate (\<lambda>_. Some 1721001600000) s = Some (js ''2024-07-15'')"
  by (simp add: js_def date_defs)


section \<open>The segmenter\<close>

lemma release_trailing_dropped:
  "releaseBlocks (js ''## 4.45.0\<newline>Fixed bugs.'') = Inr []"
  by (simp add: eval_defs release_defs)

lemma security_trailing_dropped:
  "securityBlocks dp (js ''## 4.45.0\<newline>Fixed bugs.'') = Inr []"
  by (simp add: eval_defs securityBlocks_def)

lemma release_cut_at_Z:
  "releaseBlocks (js ''## 4.45.0\<newline>Fixed Zsh bugs.'')
     = Inr [\<lparr>version = js ''4.45.0'', date = None, details = js ''Fixed''\<rparr>]"
  by (simp add: eval_defs release_defs)

text \<open>With a second heading after it the first section is found, and the digest of the
  two-section sample document with limit 1 is the one the specification gives.\<close>

lemma release_two_sections_sample:
  "parseReleases
     (JSString (js ''## 4.45.0\<newline>{{< release-date date='' @ [34] @ js ''2025-01-01'' @ [34]
                 @ js '' >}}\<newline>Fixed bugs.\<newline>## 4.44.0\<newline>{{< release-date date='' @ [34]
                 @ js ''2024-12-01'' @ [34] @ js '' >}}\<newline>More fixes.'')) 1
     = Inr (js ''## 4.45.0 '' @ [8212] @ js '' 2025-01-01\<newline>Fixed bugs.'')"
  by (simp add: eval_defs release_defs)

text \<open>
  Claim C1: the segmenter emits one section per \<open>##\<close> heading line and the last section
  runs to the end of the document. The code does not do this. The lookahead
  \<^verbatim>\<open>(?=^##\s+|\Z)\<close> is meant to stop at the next heading or at the end of input, but in
  a JavaScript pattern without the \<open>u\<close> flag \<^verbatim>\<open>\Z\<close> is the letter \<open>Z\<close>. A trailing section
  with no \<open>Z\<close> in it is therefore never matched and is lost in both pipelines, and a
  trailing section that contains a \<open>Z\<close> is cut there.
\<close>

theorem segmenter_drops_trailing_section:
  "releaseBlocks (js ''## 4.45.0\<newline>Fixed bugs.'') = Inr []
   \<and> securityBlocks dp (js ''## 4.45.0\<newline>Fixed bugs.'') = Inr []
   \<and> releaseBlocks (js ''## 4.45.0\<newline>Fixed Zsh bugs.'')
       = Inr [\<lparr>version = js ''4.45.0'', date = None, details = js ''Fixed''\<rparr>]"
  using release_trailing_dropped security_trailing_dropped release_cut_at_Z by blast


section \<open>CVE identifiers\<close>


lemma digit_word: "w \<in> words ic (Chr CDigit) \<longleftrightarrow> (\<exists>c. w = [c] \<and> isDigit c)"
  by auto

lemma words_rep4_digit:
  "w \<in> words ic (rep 4 (Chr CDigit)) \<Longrightarrow> length w = 4 \<and> list_all isDigit w"
  by (auto simp: regex_defs)

lemma words_rep2_digit:
  "w \<in> words ic (rep 2 (Chr CDigit)) \<Longrightarrow> length w = 2 \<and> list_all isDigit w"
  by (auto simp: regex_defs)








section \<open>The shape of a normalised date\<close>

lemma dateShaped_parts:
  assumes "length y = 4" "list_all isDigit y" "length m = 2" "list_all isDigit m"
    "length d = 2" "list_all isDigit d"
  shows "isDateShaped (y @ 45 # m @ 45 # d)"
  using assms by (simp add: isDateShaped_def nth_append)

lemma words_reIso: "w \<in> words False reIso \<Longrightarrow> isDateShaped w"
proof -
  assume "w \<in> words False reIso"
  then obtain y m d where w: "w = y @ 45 # m @ 45 # d"
    and y: "y \<in> words False (rep 4 (Chr CDigit))"
    and m: "m \<in> words False (rep 2 (Chr CDigit))"
    and d: "d \<in> words False (rep 2 (Chr CDigit))"
    by (auto simp: reIso_def cat_def chr_def)
  from words_rep4_digit[OF y] words_rep2_digit[OF m] words_rep2_digit[OF d] show ?thesis
    unfolding w by (simp add: dateShaped_parts)
qed

lemma words_day:
  "w \<in> words ic (Seq (Chr CDigit) (repUpTo 1 (Chr CDigit))) \<Longrightarrow>
     (length w = 1 \<or> length w = 2) \<and> list_all isDigit w"
  by (auto simp: regex_defs)

lemma padStart2_digits:
  assumes "length w = 1 \<or> length w = 2" and "list_all isDigit w"
  shows "length (padStart2 w) = 2 \<and> list_all isDigit (padStart2 w)"
  using assms by (auto simp: padStart2_def isDigit_def)

lemma showNat_below_100:
  assumes "n < 100"
  shows "(length (showNat n) = 1 \<or> length (showNat n) = 2) \<and> list_all isDigit (showNat n)"
proof (cases "n < 10")
  case True
  then show ?thesis
    by (subst (1 2 3) showNat.simps) (simp add: isDigit_def)
next
  case False
  with assms have d: "n div 10 < 10" by simp
  then have "showNat (n div 10) = [48 + n div 10]"
    by (subst showNat.simps) simp
  with False d show ?thesis
    by (subst (1 2 3) showNat.simps) (simp add: isDigit_def)
qed

lemma monthTable_range: "monthTable k = Some (MonthNumber n) \<Longrightarrow> 1 \<le> n \<and> n \<le> 12"
  by (auto simp: monthTable_def split: if_splits)

lemma month_digits:
  assumes "monthToNum name = Some (MonthNumber n)"
  shows "length (padStart2 (monthString (MonthNumber n))) = 2
         \<and> list_all isDigit (padStart2 (monthString (MonthNumber n)))"
proof -
  from assms monthTable_range have "n < 100"
    by (fastforce simp: monthToNum_def)
  from showNat_below_100[OF this] show ?thesis
    by (simp add: monthString_def padStart2_digits)
qed

lemma topGroup_reLong:
  "topGroup 2 reLong = Some (Seq (Chr CDigit) (repUpTo 1 (Chr CDigit)))"
  "topGroup 3 reLong = Some (rep 4 (Chr CDigit))"
  by (simp_all add: regex_defs)

lemma topGroup_reMonthYear: "topGroup 2 reMonthYear = Some (rep 4 (Chr CDigit))"
  by (simp add: regex_defs)

lemma month_value:
  assumes "monthToNum name = Some (MonthNumber n)"
  shows "digitsValue (padStart2 (monthString (MonthNumber n))) = n \<and> 1 \<le> n \<and> n \<le> 12"
proof -
  from assms have "monthTable (toLowerCase name) = Some (MonthNumber n)"
    by (simp add: monthToNum_def)
  then show ?thesis
    unfolding monthTable_def
    by (auto simp: monthString_def padStart2_def digitsValue_def showNat_numeral showNat_small
          split: if_splits)
qed

lemma monthField_parts:
  assumes "length y = 4" and "length m = 2"
  shows "monthField (y @ 45 # m @ 45 # d) = digitsValue m"
  using assms by (simp add: monthField_def)

lemma longDate_value:
  "longDate c = Some r \<Longrightarrow> \<exists>mm. monthWordValue reLong c = Some mm"
  by (auto simp: longDate_def monthWordValue_def split: option.splits)

lemma longDate_None: "longDate c = None \<Longrightarrow> monthWordValue reLong c = None"
  by (auto simp: longDate_def monthWordValue_def split: option.splits)

lemma longDate_shape:
  assumes "longDate c = Some r"
  shows "(isDateShaped r \<and> 1 \<le> monthField r \<and> monthField r \<le> 12)
         \<or> monthWordValue reLong c = Some ObjectConstructor"
proof -
  from assms obtain m mm where m: "search False False reLong c = Some m"
    and mm: "monthToNum (groupText m 1) = Some mm"
    and r: "r = groupText m 3 @ js ''-'' @ padStart2 (monthString mm) @ js ''-''
                  @ padStart2 (groupText m 2)"
    by (auto simp: longDate_def split: option.splits)
  show ?thesis
  proof (cases mm)
    case ObjectConstructor
    with m mm show ?thesis by (simp add: monthWordValue_def)
  next
    case (MonthNumber n)
    from search_topGroup[OF m topGroup_reLong(1)] obtain d where d: "mgroup m 2 = Some d"
      and dw: "d \<in> words False (Seq (Chr CDigit) (repUpTo 1 (Chr CDigit)))"
      by blast
    from search_topGroup[OF m topGroup_reLong(2)] obtain y where y: "mgroup m 3 = Some y"
      and yw: "y \<in> words False (rep 4 (Chr CDigit))"
      by blast
    let ?mm = "padStart2 (monthString (MonthNumber n))"
    from words_day[OF dw] have "length (padStart2 d) = 2 \<and> list_all isDigit (padStart2 d)"
      by (simp add: padStart2_digits)
    with words_rep4_digit[OF yw] month_digits[OF mm[unfolded MonthNumber]]
    have "isDateShaped (y @ 45 # ?mm @ 45 # padStart2 d)"
      by (simp add: dateShaped_parts)
    moreover from words_rep4_digit[OF yw] month_digits[OF mm[unfolded MonthNumber]]
    have "monthField (y @ 45 # ?mm @ 45 # padStart2 d) = digitsValue ?mm"
      by (simp add: monthField_parts)
    moreover note month_value[OF mm[unfolded MonthNumber]]
    moreover from r d y MonthNumber have "r = y @ 45 # ?mm @ 45 # padStart2 d"
      by (simp add: groupText_def js_def)
    ultimately show ?thesis by simp
  qed
qed

lemma first_of_month_canonical:
  assumes "length y = 4" "list_all isDigit y" "length m = 2" "list_all isDigit m"
    "1 \<le> digitsValue m" "digitsValue m \<le> 12"
  shows "isCanonicalDate (y @ 45 # m @ 45 # [48, 49])"
proof -
  have "length [48, 49 :: nat] = 2" "list_all isDigit [48, 49]"
    by (simp_all add: isDigit_def)
  from dateShaped_parts[OF assms(1-4) this] have "isDateShaped (y @ 45 # m @ 45 # [48, 49])" .
  moreover have "1 \<le> daysInMonth a b" for a b
    by (simp add: daysInMonth_def)
  ultimately show ?thesis
    using assms by (simp add: isCanonicalDate_def digitsValue_def)
qed

lemma monthYearDate_shape:
  assumes "monthYearDate c = Some r"
  shows "isCanonicalDate r \<or> monthWordValue reMonthYear c = Some ObjectConstructor"
proof -
  from assms obtain m mm where m: "search False False reMonthYear c = Some m"
    and mm: "monthToNum (groupText m 1) = Some mm"
    and r: "r = groupText m 2 @ js ''-'' @ padStart2 (monthString mm) @ js ''-01''"
    by (auto simp: monthYearDate_def split: option.splits)
  show ?thesis
  proof (cases mm)
    case ObjectConstructor
    with m mm show ?thesis by (simp add: monthWordValue_def)
  next
    case (MonthNumber n)
    from search_topGroup[OF m topGroup_reMonthYear] obtain y where y: "mgroup m 2 = Some y"
      and yw: "y \<in> words False (rep 4 (Chr CDigit))"
      by blast
    let ?mm = "padStart2 (monthString (MonthNumber n))"
    from words_rep4_digit[OF yw] month_digits[OF mm[unfolded MonthNumber]]
      month_value[OF mm[unfolded MonthNumber]]
    have "isCanonicalDate (y @ 45 # ?mm @ 45 # [48, 49])"
      by (intro first_of_month_canonical) simp_all
    with r y MonthNumber show ?thesis
      by (simp add: groupText_def js_def)
  qed
qed

text \<open>
  Claim C3, as the code has it. The month table is an object literal, so the month word
  \<open>constructor\<close> finds the function that every object inherits; what the normaliser returns
  then is left out of the statement. For every other text the result is null, or the first
  embedded token of the shape \<open>dddd-dd-dd\<close>, returned as it stands and not checked against the
  calendar; or, by the rule for \<open>Month DD, YYYY\<close>, a string of that shape whose month is
  between 01 and 12 and whose day is the day of the text, padded and not checked; or, by the
  rule for \<open>Month YYYY\<close>, the first day of a month, which is a valid date; or the UTC date of
  the time value that the host's \<open>Date.parse\<close> returns for the cleaned text.
\<close>

theorem toISODateLoose_shape:
  assumes "toISODateLoose dp raw = Some r" and "\<not> usesInheritedKey (cleanDate raw)"
  shows "(embeddedToken (cleanDate raw) = Some r \<and> isDateShaped r)
         \<or> (embeddedToken (cleanDate raw) = None \<and> longDate (cleanDate raw) = Some r
             \<and> isDateShaped r \<and> 1 \<le> monthField r \<and> monthField r \<le> 12)
         \<or> (embeddedToken (cleanDate raw) = None \<and> longDate (cleanDate raw) = None
             \<and> monthYearDate (cleanDate raw) = Some r \<and> isCanonicalDate r)
         \<or> (patternDate (cleanDate raw) = None \<and> fallbackDate dp (cleanDate raw) = Some r)"
proof (cases "search False False reIso (cleanDate raw)")
  case (Some im)
  with assms(1) have "r = mtext im"
    by (simp add: toISODateLoose_def patternDate_def split: if_splits)
  with search_text_words[OF Some] words_reIso Some show ?thesis
    by (simp add: embeddedToken_def)
next
  case None
  then have e: "embeddedToken (cleanDate raw) = None"
    by (simp add: embeddedToken_def)
  show ?thesis
  proof (cases "longDate (cleanDate raw)")
    case (Some r')
    with None assms(1) have l: "longDate (cleanDate raw) = Some r"
      by (simp add: toISODateLoose_def patternDate_def split: if_splits)
    from longDate_shape[OF l] assms(2) e l show ?thesis
      by (auto simp: usesInheritedKey_def)
  next
    case l: None
    show ?thesis
    proof (cases "monthYearDate (cleanDate raw)")
      case (Some r')
      with None l assms(1) have m: "monthYearDate (cleanDate raw) = Some r"
        by (simp add: toISODateLoose_def patternDate_def split: if_splits)
      from monthYearDate_shape[OF m] assms(2) e longDate_None[OF l] l m show ?thesis
        by (auto simp: usesInheritedKey_def)
    next
      case m: None
      with None l have "patternDate (cleanDate raw) = None"
        by (simp add: patternDate_def)
      with assms(1) show ?thesis
        by (simp add: toISODateLoose_def split: if_splits)
    qed
  qed
qed

lemma month_year_not_inherited: "\<not> usesInheritedKey (cleanDate (js ''July 2024''))"
  by (simp add: eval_defs date_defs usesInheritedKey_def monthWordValue_def embeddedToken_def)

lemma month_year_no_token: "embeddedToken (cleanDate (js ''July 2024'')) = None"
  by (simp add: eval_defs date_defs embeddedToken_def)

theorem toISODateLoose_shape_witness:
  "toISODateLoose (\<lambda>_. None) (js ''July 2024'') = Some (js ''2024-07-01'')
   \<and> \<not> usesInheritedKey (cleanDate (js ''July 2024''))
   \<and> monthYearDate (cleanDate (js ''July 2024'')) = Some (js ''2024-07-01'')
   \<and> isCanonicalDate (js ''2024-07-01'')"
proof -
  have c: "isCanonicalDate (js ''2024-07-01'')"
    by (simp add: isCanonicalDate_def isDateShaped_def digitsValue_def daysInMonth_def js_def
          isDigit_def)
  have y: "monthYearDate (cleanDate (js ''July 2024'')) = Some (js ''2024-07-01'')"
    by (simp add: eval_defs date_defs)
  from toISODateLoose_shape[OF month_year_sample[of "\<lambda>_. None"] month_year_not_inherited]
    month_year_sample[of "\<lambda>_. None"] month_year_not_inherited c y
  show ?thesis by blast
qed

lemma out_of_range_token:
  "toISODateLoose (\<lambda>_. None) (js ''2024-99-99'') = Some (js ''2024-99-99'')"
  by (simp add: eval_defs date_defs)

lemma out_of_range_token_invalid: "\<not> isCanonicalDate (js ''2024-99-99'')"
  by (simp add: isCanonicalDate_def digitsValue_def js_def)

lemma out_of_range_day:
  "toISODateLoose (\<lambda>_. None) (js ''Rev 1, 2024: July 99, 2024'') = Some (js ''2024-07-99'')"
  by (simp add: eval_defs date_defs)

lemma out_of_range_day_invalid: "\<not> isCanonicalDate (js ''2024-07-99'')"
  by (simp add: isCanonicalDate_def digitsValue_def daysInMonth_def js_def)

text \<open>Claim C3 as stated, with a result that is null or a valid calendar date, fails on a
  text with an embedded token \<open>2024-99-99\<close>, returned as it stands, and on a text whose
  \<open>Month DD, YYYY\<close> part has the day 99.\<close>

theorem toISODateLoose_returns_invalid_dates:
  "toISODateLoose (\<lambda>_. None) (js ''2024-99-99'') = Some (js ''2024-99-99'')
   \<and> \<not> isCanonicalDate (js ''2024-99-99'')
   \<and> toISODateLoose (\<lambda>_. None) (js ''Rev 1, 2024: July 99, 2024'') = Some (js ''2024-07-99'')
   \<and> \<not> isCanonicalDate (js ''2024-07-99'')"
  using out_of_range_token out_of_range_token_invalid out_of_range_day out_of_range_day_invalid
  by simp


section \<open>The order of the security digest\<close>

text \<open>The ranking as such is what the specification says, on every host whose collation puts
  the dates of the document in the order of their code units: the dated records come first,
  by descending date, records with the same date in their original order, then the undated
  records in their original order, and the first \<open>limit\<close> of them are rendered.\<close>

lemma ranking_order:
  assumes "0 \<le> limit" and "securityBlocks (Date_parse h) (normalizeNewlines s) = Inr bs"
    and "ordersByCodeUnits h (map isoKey (filter dated bs))"
  shows "\<exists>ds. parseSecurityAnnouncements h (JSString s) limit
                = Inr (formatAnnouncementsForLLM (take (nat limit) (ds @ filter (\<lambda>b. \<not> dated b) bs)))
           \<and> sorted_wrt (\<lambda>a b. isoKey b \<le> isoKey a) ds
           \<and> (\<forall>k. filter (\<lambda>a. isoKey a = k) ds = filter (\<lambda>a. isoKey a = k) (filter dated bs))
           \<and> length ds = length (filter dated bs)"
proof -
  let ?ds = "sortBy (compareAnnouncements h) (filter dated bs)"
  have c: "\<forall>x\<in>set (filter dated bs). \<forall>y\<in>set (filter dated bs).
      (compareAnnouncements h x y \<le> 0) = (isoKey y \<le> isoKey x)"
  proof (intro ballI)
    fix x y
    assume "x \<in> set (filter dated bs)" and "y \<in> set (filter dated bs)"
    with assms(3) have "sgn (localeCompare h (isoKey y) (isoKey x))
        = sgn (codeUnitOrder (isoKey y) (isoKey x))"
      by (simp add: ordersByCodeUnits_def list_all_iff sgn_codeUnitOrder)
    from same_sign_le[OF this] show "(compareAnnouncements h x y \<le> 0) = (isoKey y \<le> isoKey x)"
      by (simp add: compare_le_iff codeUnitOrder_le)
  qed
  from assms(1,2) have "parseSecurityAnnouncements h (JSString s) limit
      = Inr (formatAnnouncementsForLLM (take (nat limit) (?ds @ filter (\<lambda>b. \<not> dated b) bs)))"
    by (simp add: parseSecurityAnnouncements_def rankAnnouncements_def slice0_def
          dated_def[abs_def])
  moreover from c have "sorted_wrt (\<lambda>a b. isoKey b \<le> isoKey a) ?ds"
    by (rule sorted_sortBy)
  moreover from c have "\<forall>k. filter (\<lambda>a. isoKey a = k) ?ds = filter (\<lambda>a. isoKey a = k) (filter dated bs)"
    by (simp add: stable_sortBy)
  moreover have "length ?ds = length (filter dated bs)"
    by (rule length_sortBy)
  ultimately show ?thesis by blast
qed

lemma three_sections_then_heading_blocks:
  "securityBlocks dp
       (normalizeNewlines (js ''## A\<newline>_Last updated March 2024_\<newline>a\<newline>## B\<newline>_Last updated 2025-01-10_\<newline>b\<newline>## C\<newline>c\<newline>## D\<newline>''))
     = Inr [\<lparr>title = js ''A'', lastUpdatedISO = Some (js ''2024-03-01''),
              lastUpdatedRaw = Some (js ''March 2024''), product = None,
              productVersion = None, cves = [], detailsMarkdown = js ''a''\<rparr>,
            \<lparr>title = js ''B'', lastUpdatedISO = Some (js ''2025-01-10''),
              lastUpdatedRaw = Some (js ''2025-01-10''), product = None,
              productVersion = None, cves = [], detailsMarkdown = js ''b''\<rparr>,
            \<lparr>title = js ''C'', lastUpdatedISO = None, lastUpdatedRaw = None, product = None,
              productVersion = None, cves = [], detailsMarkdown = js ''c''\<rparr>]"
  by (simp add: eval_defs date_defs security_defs)

lemma three_sections_only_blocks:
  "securityBlocks dp
       (normalizeNewlines (js ''## A\<newline>_Last updated March 2024_\<newline>a\<newline>## B\<newline>_Last updated 2025-01-10_\<newline>b\<newline>## C\<newline>c\<newline>''))
     = Inr [\<lparr>title = js ''A'', lastUpdatedISO = Some (js ''2024-03-01''),
              lastUpdatedRaw = Some (js ''March 2024''), product = None,
              productVersion = None, cves = [], detailsMarkdown = js ''a''\<rparr>,
            \<lparr>title = js ''B'', lastUpdatedISO = Some (js ''2025-01-10''),
              lastUpdatedRaw = Some (js ''2025-01-10''), product = None,
              productVersion = None, cves = [], detailsMarkdown = js ''b''\<rparr>]"
  by (simp add: eval_defs date_defs security_defs)

lemma three_sections_then_heading:
  "parseSecurityAnnouncements hostUTC
       (JSString (js ''## A\<newline>_Last updated March 2024_\<newline>a\<newline>## B\<newline>_Last updated 2025-01-10_\<newline>b\<newline>## C\<newline>c\<newline>## D\<newline>'')) 3
     = Inr ([10] @ js ''## B '' @ [8212] @ js '' updated 2025-01-10\<newline>Details:\<newline>  b\<newline>''
            @ [10] @ js ''## A '' @ [8212] @ js '' updated 2024-03-01\<newline>Details:\<newline>  a\<newline>''
            @ [10] @ js ''## C\<newline>Details:\<newline>  c'')"
  apply (simp add: parseSecurityAnnouncements_def three_sections_then_heading_blocks)
  apply (simp add: render_defs hostUTC_def)
  done

lemma three_sections_only:
  "parseSecurityAnnouncements hostUTC
       (JSString (js ''## A\<newline>_Last updated March 2024_\<newline>a\<newline>## B\<newline>_Last updated 2025-01-10_\<newline>b\<newline>## C\<newline>c\<newline>'')) 3
     = Inr ([10] @ js ''## B '' @ [8212] @ js '' updated 2025-01-10\<newline>Details:\<newline>  b\<newline>''
            @ [10] @ js ''## A '' @ [8212] @ js '' updated 2024-03-01\<newline>Details:\<newline>  a'')"
  apply (simp add: parseSecurityAnnouncements_def three_sections_only_blocks)
  apply (simp add: render_defs hostUTC_def)
  done

text \<open>
  Claim C4: the security pipeline puts the dated records first, by descending date, then the
  undated ones in their original order, and renders the first \<open>limit\<close>; three sections
  whose last-updated texts are \<open>March 2024\<close>, \<open>2025-01-10\<close> and absent are rendered in the
  order second, first, third. The code ranks as the claim says, but of a document with these
  three sections it renders only two: the third section is the last of the document, and the
  section pattern, whose lookahead \<^verbatim>\<open>(?=^##\s+|\Z)\<close> is meant to accept the end of input,
  never matches a last section (the defect of claim C1). The third item appears, and in
  the place the claim gives it, once another heading line follows the section.
\<close>

theorem third_section_not_rendered:
  "parseSecurityAnnouncements hostUTC
       (JSString (js ''## A\<newline>_Last updated March 2024_\<newline>a\<newline>## B\<newline>_Last updated 2025-01-10_\<newline>b\<newline>## C\<newline>c\<newline>'')) 3
     = Inr ([10] @ js ''## B '' @ [8212] @ js '' updated 2025-01-10\<newline>Details:\<newline>  b\<newline>''
            @ [10] @ js ''## A '' @ [8212] @ js '' updated 2024-03-01\<newline>Details:\<newline>  a'')
   \<and> parseSecurityAnnouncements hostUTC
       (JSString (js ''## A\<newline>_Last updated March 2024_\<newline>a\<newline>## B\<newline>_Last updated 2025-01-10_\<newline>b\<newline>## C\<newline>c\<newline>## D\<newline>'')) 3
     = Inr ([10] @ js ''## B '' @ [8212] @ js '' updated 2025-01-10\<newline>Details:\<newline>  b\<newline>''
            @ [10] @ js ''## A '' @ [8212] @ js '' updated 2024-03-01\<newline>Details:\<newline>  a\<newline>''
            @ [10] @ js ''## C\<newline>Details:\<newline>  c'')"
  using three_sections_only three_sections_then_heading by simp

section \<open>The version field of a release record\<close>

lemma splitOn_no_sep: "d \<notin> set a \<Longrightarrow> splitOn d a = [a]"
  by (induction a) auto

lemma splitOn_append: "d \<notin> set a \<Longrightarrow> splitOn d (a @ d # rest) = a # splitOn d rest"
  by (induction a) auto

lemma words_digits1:
  assumes "w \<in> words ic (many1 True (Chr (CRange 48 57)))"
  shows "w \<noteq> [] \<and> list_all isDigit w \<and> 46 \<notin> set w"
proof -
  from assms obtain c v where w: "w = c # v" and c: "cmatch ic (CRange 48 57) c"
    and v: "v \<in> starSet {[c] | c. cmatch ic (CRange 48 57) c}"
    by (auto simp: many1_def)
  have d: "cmatch ic (CRange 48 57) x \<Longrightarrow> isDigit x" for x
    by (auto simp: isDigit_def caseVariants_def canonicalize_def split: if_splits)
  from starSet_chars[OF v] have "list_all (cmatch ic (CRange 48 57)) v" .
  with c d have "list_all isDigit (c # v)"
    by (auto simp: list_all_iff)
  then show ?thesis
    unfolding w by (auto simp: list_all_iff isDigit_def)
qed

lemma words_triple: "w \<in> words ic reTriple \<Longrightarrow> isDottedTriple w"
proof -
  assume "w \<in> words ic reTriple"
  then obtain a b c where w: "w = a @ 46 # b @ 46 # c"
    and a: "a \<in> words ic (many1 True (Chr (CRange 48 57)))"
    and b: "b \<in> words ic (many1 True (Chr (CRange 48 57)))"
    and c: "c \<in> words ic (many1 True (Chr (CRange 48 57)))"
    by (auto simp: reTriple_def cat_def chr_def canonicalize_def split: if_splits)
  note A = words_digits1[OF a] and B = words_digits1[OF b] and C = words_digits1[OF c]
  from A B C have "splitOn 46 w = [a, b, c]"
    unfolding w by (simp add: splitOn_append splitOn_no_sep)
  with A B C show ?thesis
    by (simp add: isDottedTriple_def)
qed

lemma topGroup_reVersion: "topGroup 1 reVersion = Some reTriple"
  by (simp add: reVersion_def reTriple_def cat_def)

lemma dottedTriple_nonempty: "isDottedTriple v \<Longrightarrow> v \<noteq> []"
  by (auto simp: isDottedTriple_def)


lemma releaseVersion_cases:
  "(case search False False reVersion h of
      None \<Rightarrow> releaseVersion h = h
    | Some vm \<Rightarrow> mgroup vm 1 = Some (releaseVersion h) \<and> isDottedTriple (releaseVersion h))"
proof (cases "search False False reVersion h")
  case None
  then show ?thesis by (simp add: releaseVersion_def orElse_def)
next
  case (Some vm)
  from search_topGroup[OF Some topGroup_reVersion] obtain w where w: "mgroup vm 1 = Some w"
    and t: "w \<in> words False reTriple"
    by blast
  from words_triple[OF t] dottedTriple_nonempty[of w] Some w show ?thesis
    by (simp add: releaseVersion_def orElse_def)
qed


lemma searchFrom_position:
  "searchFrom ic ml r pre suf = Some m \<Longrightarrow>
     \<exists>pre' suf'. matchAt ic ml r pre' suf' = Some m \<and> rev pre' @ suf' = rev pre @ suf"
proof (induction suf arbitrary: pre)
  case Nil
  then show ?case by auto
next
  case (Cons c cs)
  show ?case
  proof (cases "matchAt ic ml r pre (c # cs)")
    case None
    with Cons.prems have "searchFrom ic ml r (c # pre) cs = Some m" by simp
    from Cons.IH[OF this] obtain pre' suf' where "matchAt ic ml r pre' suf' = Some m"
      and "rev pre' @ suf' = rev (c # pre) @ cs"
      by blast
    then have "matchAt ic ml r pre' suf' = Some m \<and> rev pre' @ suf' = rev pre @ c # cs"
      by simp
    then show ?thesis by blast
  next
    case (Some m')
    with Cons.prems have "matchAt ic ml r pre (c # cs) = Some m" by simp
    then show ?thesis by blast
  qed
qed

lemma matchAt_Bol: "matchAt ic False (Seq Bol r) pre suf = Some m \<Longrightarrow> pre = []"
  by (cases "pre = []") (simp_all add: matchAt_def)

lemma ms_Grp_split:
  assumes "st' \<in> set (ms ic ml (Grp n a) st)"
  shows "\<exists>w. snd (snd st') n = Some w \<and> fst (snd st) = w @ fst (snd st')"
proof -
  from assms obtain mid where mid: "mid \<in> set (ms ic ml a st)"
    and c: "snd (snd st') n = Some (take (remaining st - remaining mid) (fst (snd st)))"
    and r: "fst (snd st') = fst (snd mid)"
    by auto
  from ms_words[OF mid] obtain w where w: "fst (snd st) = w @ fst (snd mid)" by blast
  then have "take (remaining st - remaining mid) (fst (snd st)) = w"
    by (simp add: remaining_def)
  with c r w show ?thesis by simp
qed

lemma version_at_start:
  assumes vm: "search False False reVersion s = Some vm" and s: "dropWhile isSpace s = s"
  shows "\<exists>v rest. mgroup vm 1 = Some v \<and> s = v @ rest"
proof -
  let ?Z = "Seq WordB Eps"
  let ?Y = "Seq (Grp 1 reTriple) ?Z"
  let ?X = "Seq (Star True (Chr CSpace)) ?Y"
  have re: "reVersion = Seq Bol ?X"
    by (simp add: reVersion_def reTriple_def cat_def)
  from vm obtain pre' suf' where m: "matchAt False False (Seq Bol ?X) pre' suf' = Some vm"
    and p: "rev pre' @ suf' = s"
    unfolding search_def re by (auto dest: searchFrom_position)
  from matchAt_Bol[OF m] p have pre': "pre' = []" and suf': "suf' = s" by simp_all
  from m pre' suf' have m': "matchAt False False (Seq Bol ?X) [] s = Some vm" by simp
  from matchAt_SomeD[OF m'] obtain st'
    where st': "st' \<in> set (ms False False (Seq Bol ?X) ([], s, \<lambda>_. None))"
      and g: "mgroup vm = snd (snd st')"
    by blast
  from st'[unfolded ms_Seq_iff] obtain m1 m2 m3 m4
    where m1: "m1 \<in> set (ms False False Bol ([], s, \<lambda>_. None))"
      and m2: "m2 \<in> set (ms False False (Star True (Chr CSpace)) m1)"
      and m3: "m3 \<in> set (ms False False (Grp 1 reTriple) m2)"
      and m4: "m4 \<in> set (ms False False WordB m3)"
      and m5: "st' \<in> set (ms False False Eps m4)"
    by blast
  from m1 have m1': "m1 = ([], s, \<lambda>_. None)" by simp
  from ms_words[OF m2] m1' obtain ws where ws: "s = ws @ fst (snd m2)"
    and wsw: "ws \<in> starSet {[c] | c. isSpace c}"
    by auto
  from ms_Grp_split[OF m3] obtain v where v: "snd (snd m3) 1 = Some v"
    and vs: "fst (snd m2) = v @ fst (snd m3)"
    by blast
  have "snd (snd m4) 1 = snd (snd m3) 1"
    by (rule ms_caps_frame[OF m4]) simp
  moreover have "snd (snd st') 1 = snd (snd m4) 1"
    by (rule ms_caps_frame[OF m5]) simp
  ultimately have gv: "mgroup vm 1 = Some v"
    using v g by simp
  have "ws = []"
  proof (rule ccontr)
    assume ne: "ws \<noteq> []"
    from starSet_chars[OF wsw] ne have "isSpace (hd ws)"
      by (cases ws) simp_all
    with ws ne have "isSpace (hd s)" and "s \<noteq> []" by simp_all
    with s show False by (simp add: dropWhile_fix_iff)
  qed
  with ws vs have "s = v @ fst (snd m3)" by simp
  with gv show ?thesis by blast
qed

lemma releaseVersion_prefix:
  "take (length (releaseVersion (trim h))) (trim h) = releaseVersion (trim h)"
proof (cases "search False False reVersion (trim h)")
  case None
  with releaseVersion_cases[of "trim h"] show ?thesis by simp
next
  case (Some vm)
  from version_at_start[OF Some trim_head] obtain v rest where v: "mgroup vm 1 = Some v"
    and t: "trim h = v @ rest"
    by blast
  from Some releaseVersion_cases[of "trim h"] v have "releaseVersion (trim h) = v" by simp
  with t show ?thesis by simp
qed






section \<open>The size of the release digest\<close>

lemma splitOn_nonempty: "splitOn d s \<noteq> []"
  by (induction s) (auto split: list.splits)

lemma splitOn_at_sep: "splitOn d (a @ d # b) = splitOn d a @ splitOn d b"
proof (induction a)
  case Nil
  then show ?case by simp
next
  case (Cons c cs)
  obtain l ls where l: "splitOn d cs = l # ls"
    using splitOn_nonempty[of d cs] by (cases "splitOn d cs") auto
  with Cons show ?case by simp
qed

lemma splitOn_after_prefix:
  "d \<notin> set p \<Longrightarrow> splitOn d (p @ x) = (p @ hd (splitOn d x)) # tl (splitOn d x)"
proof (induction p)
  case Nil
  then show ?case
    using splitOn_nonempty[of d x] by simp
next
  case (Cons c cs)
  then show ?case by simp
qed

lemma sectionCount_at_newline: "sectionCount (a @ 10 # b) = sectionCount a + sectionCount b"
  by (simp add: sectionCount_def splitOn_at_sep)

lemma sectionCount_plain: "sectionCount [] = 0" "sectionCount (js ''---'') = 0"
  by (simp_all add: sectionCount_def js_def)

lemma sectionCount_separator:
  "sectionCount (a @ js ''\<newline>\<newline>---\<newline>\<newline>'' @ b) = sectionCount a + sectionCount b"
proof -
  have "a @ js ''\<newline>\<newline>---\<newline>\<newline>'' @ b = a @ 10 # [] @ 10 # js ''---'' @ 10 # [] @ 10 # b"
    by (simp add: js_def)
  then show ?thesis
    by (simp only: sectionCount_at_newline sectionCount_plain)
qed

lemma sectionCount_join:
  "sectionCount (join (js ''\<newline>\<newline>---\<newline>\<newline>'') xs) = sum_list (map sectionCount xs)"
proof (induction xs rule: induct_list012)
  case 1
  then show ?case by (simp add: sectionCount_plain)
next
  case (2 x)
  then show ?case by simp
next
  case (3 x y zs)
  then show ?case
    by (simp only: join.simps sectionCount_separator list.map sum_list.Cons)
qed

text \<open>The heading line of a rendering is one digest section when the version has no line
  break; every other one comes from the date or from the body.\<close>

lemma sectionCount_render:
  assumes "10 \<notin> set (version r)"
  shows "sectionCount (renderRelease r) = 1 + extraHeadings r"
proof -
  let ?body = "replaceFirst False False reLeadingSpace (\<lambda>_. []) (details r)"
  let ?d = "case date r of None \<Rightarrow> [] | Some d \<Rightarrow> d"
  let ?p = "js ''## '' @ version r @ (if ?d \<noteq> [] then [32, 8212, 32] else [])"
  have r: "renderRelease r = (?p @ ?d) @ 10 # ?body"
    by (simp add: renderRelease_def split: option.splits)
  from assms have "10 \<notin> set ?p"
    by (simp add: js_def)
  from splitOn_after_prefix[OF this]
  have "splitOn 10 (?p @ ?d) = (?p @ hd (splitOn 10 ?d)) # tl (splitOn 10 ?d)" .
  moreover have "take 3 (?p @ x) = js ''## ''" for x
    by (simp add: js_def)
  ultimately have "sectionCount (?p @ ?d)
      = 1 + length (filter (\<lambda>l. take 3 l = js ''## '') (tl (splitOn 10 ?d)))"
    by (simp add: sectionCount_def)
  then show ?thesis
    unfolding r sectionCount_at_newline by (simp add: extraHeadings_def)
qed

lemma topGroup_reReleaseSection:
  "topGroup 1 reReleaseSection = Some (many1 True (Chr (CNot (CChar 10))))"
  by (simp add: regex_defs)

lemma words_no_newline:
  assumes "w \<in> words False (many1 True (Chr (CNot (CChar 10))))"
  shows "10 \<notin> set w"
proof -
  from assms obtain c v where w: "w = c # v" and c: "c \<noteq> 10"
    and v: "v \<in> starSet {[c] | c. c \<noteq> 10}"
    by (auto simp: many1_def)
  from starSet_chars[OF v] c show ?thesis
    unfolding w by (auto simp: list_all_iff)
qed

lemma record_version_one_line:
  assumes "releaseBlocks md = Inr bs" and "b \<in> set bs"
  shows "10 \<notin> set (version b)"
proof -
  from execLoop_from_search[OF assms(1)[unfolded releaseBlocks_def] assms(2)]
  obtain m pre suf where m: "searchFrom False True reReleaseSection pre suf = Some m"
    and b: "releaseBlock m = Inr b"
    by blast
  from searchFrom_topGroup[OF m topGroup_reReleaseSection] obtain h where h: "mgroup m 1 = Some h"
    and hw: "h \<in> words False (many1 True (Chr (CNot (CChar 10))))"
    by blast
  from b h have v: "version b = releaseVersion (trim h)"
    by (auto simp: releaseBlock_def split: option.splits)
  have "set (version b) \<subseteq> set (trim h)"
    unfolding v using set_take_subset[of "length (releaseVersion (trim h))" "trim h"]
    by (simp add: releaseVersion_prefix)
  with set_trim[of h] words_no_newline[OF hw] show ?thesis by blast
qed

lemma sectionCount_digest:
  assumes "\<forall>b\<in>set rs. 10 \<notin> set (version b)"
  shows "sectionCount (join (js ''\<newline>\<newline>---\<newline>\<newline>'') (map renderRelease rs))
           = length rs + sum_list (map extraHeadings rs)"
proof -
  from assms have "sum_list (map sectionCount (map renderRelease rs))
      = length rs + sum_list (map extraHeadings rs)"
    by (induction rs) (simp_all add: sectionCount_render)
  then show ?thesis
    by (simp only: sectionCount_join)
qed

text \<open>
  Claim C6, as the code has it. For every document and every limit from 1 to 10 the release
  pipeline renders the first \<open>limit\<close> records in document order: the records are built from
  the matches of the section pattern, one for one, and the matches lie one after the other
  in the document. The lines of the output that start with \<open>##\<close> and a blank are the heading
  lines of the rendered records, of which there are at most \<open>limit\<close>, and the lines of this
  kind inside the rendered dates and bodies. So the output has at most \<open>limit\<close> digest
  sections whenever no rendered date or body has such a line; cleaning can produce one.
\<close>

theorem release_digest_sections:
  assumes "1 \<le> L" and "L \<le> 10"
  shows "\<exists>out. parseReleases (JSString D) L = Inr out
           \<and> out = join (js ''\<newline>\<newline>---\<newline>\<newline>'') (map renderRelease (take (nat L) (releaseRecords D)))
           \<and> map releaseBlock (releaseSections D) = map Inr (releaseRecords D)
           \<and> sorted_wrt (\<lambda>a b. sectionEnd a \<le> sectionStart b) (releaseSections D)
           \<and> list_all (\<lambda>m. rev (mstart m) @ mtext m @ mrest m = normalizeNewlines D)
                       (releaseSections D)
           \<and> sectionCount out = length (take (nat L) (releaseRecords D))
                                  + sum_list (map extraHeadings (take (nat L) (releaseRecords D)))
           \<and> (list_all (\<lambda>r. extraHeadings r = 0) (take (nat L) (releaseRecords D))
                \<longrightarrow> sectionCount out \<le> nat L)"
proof -
  let ?rs = "take (nat L) (releaseRecords D)"
  let ?out = "join (js ''\<newline>\<newline>---\<newline>\<newline>'') (map renderRelease ?rs)"
  from releaseBlocks_returns obtain bs where bs: "releaseBlocks (normalizeNewlines D) = Inr bs"
    by blast
  then have rec: "releaseRecords D = bs"
    by (simp add: releaseRecords_def)
  from execLoop_via_matches[OF bs[unfolded releaseBlocks_def]] obtain sects
    where sects: "execLoop False True reReleaseSection Inr [] (normalizeNewlines D) = Inr sects"
      and blocks: "map releaseBlock sects = map Inr bs"
    by blast
  from sects have sec: "releaseSections D = sects"
    by (simp add: releaseSections_def)
  from assms bs rec have out: "parseReleases (JSString D) L = Inr ?out"
    by (simp add: parseReleases_def slice0_def)
  from execLoop_sections[OF sects]
  have pos: "sorted_wrt (\<lambda>a b. sectionEnd a \<le> sectionStart b) sects"
    "list_all (\<lambda>m. rev (mstart m) @ mtext m @ mrest m = normalizeNewlines D) sects"
    by (simp_all add: list_all_iff)
  have "\<forall>b\<in>set ?rs. 10 \<notin> set (version b)"
    using record_version_one_line[OF bs] rec by (auto dest: in_set_takeD)
  from sectionCount_digest[OF this]
  have count: "sectionCount ?out = length ?rs + sum_list (map extraHeadings ?rs)" .
  have "length ?rs \<le> nat L"
    by simp
  moreover have "sum_list (map extraHeadings ?rs) = 0" if "list_all (\<lambda>r. extraHeadings r = 0) ?rs"
    using that by (simp add: list_all_iff)
  ultimately have "list_all (\<lambda>r. extraHeadings r = 0) ?rs \<longrightarrow> sectionCount ?out \<le> nat L"
    unfolding count by (intro impI) (simp only: add_0_right)
  with out blocks pos count sec rec show ?thesis
    by simp
qed

lemma dated_section_records:
  "releaseRecords (js ''## 4.45.0\<newline>{{< release-date date='' @ [34] @ js ''2025-01-01'' @ [34]
                    @ js '' >}}\<newline>Fixed bugs.\<newline>## 4.44.0\<newline>More fixes.'')
     = [\<lparr>version = js ''4.45.0'', date = Some (js ''2025-01-01''), details = js ''Fixed bugs.''\<rparr>]"
  by (simp add: eval_defs release_defs releaseRecords_def)

lemma dated_section_plain:
  "extraHeadings \<lparr>version = js ''4.45.0'', date = Some (js ''2025-01-01''),
                   details = js ''Fixed bugs.''\<rparr> = 0"
  by (simp add: eval_defs extraHeadings_def sectionCount_def reLeadingSpace_def)

theorem release_digest_sections_witness:
  "(1::int) \<le> 2 \<and> (2::int) \<le> 10
   \<and> list_all (\<lambda>r. extraHeadings r = 0)
        (take (nat 2)
           (releaseRecords (js ''## 4.45.0\<newline>{{< release-date date='' @ [34] @ js ''2025-01-01'' @ [34]
                              @ js '' >}}\<newline>Fixed bugs.\<newline>## 4.44.0\<newline>More fixes.'')))
   \<and> (\<exists>out. parseReleases
               (JSString (js ''## 4.45.0\<newline>{{< release-date date='' @ [34] @ js ''2025-01-01'' @ [34]
                             @ js '' >}}\<newline>Fixed bugs.\<newline>## 4.44.0\<newline>More fixes.'')) 2
              = Inr out
            \<and> out = js ''## 4.45.0 '' @ [8212] @ js '' 2025-01-01\<newline>Fixed bugs.''
            \<and> sectionCount out = 1 \<and> sectionCount out \<le> nat 2)"
proof -
  let ?D = "js ''## 4.45.0\<newline>{{< release-date date='' @ [34] @ js ''2025-01-01'' @ [34]
              @ js '' >}}\<newline>Fixed bugs.\<newline>## 4.44.0\<newline>More fixes.''"
  have l: "(1::int) \<le> 2" "(2::int) \<le> 10" by simp_all
  have p: "list_all (\<lambda>r. extraHeadings r = 0) (take (nat 2) (releaseRecords ?D))"
    unfolding dated_section_records by (simp add: dated_section_plain)
  have r: "join (js ''\<newline>\<newline>---\<newline>\<newline>'') (map renderRelease (take (nat 2) (releaseRecords ?D)))
      = js ''## 4.45.0 '' @ [8212] @ js '' 2025-01-01\<newline>Fixed bugs.''"
    unfolding dated_section_records by (simp add: eval_defs renderRelease_def reLeadingSpace_def)
  from release_digest_sections[OF l, of ?D] obtain out
    where o: "parseReleases (JSString ?D) 2 = Inr out"
      "out = join (js ''\<newline>\<newline>---\<newline>\<newline>'') (map renderRelease (take (nat 2) (releaseRecords ?D)))"
      "sectionCount out = length (take (nat 2) (releaseRecords ?D))
                          + sum_list (map extraHeadings (take (nat 2) (releaseRecords ?D)))"
      "list_all (\<lambda>r. extraHeadings r = 0) (take (nat 2) (releaseRecords ?D))
         \<longrightarrow> sectionCount out \<le> nat 2"
    by blast
  from o(2) have out: "out = js ''## 4.45.0 '' @ [8212] @ js '' 2025-01-01\<newline>Fixed bugs.''"
    by (simp only: r)
  from o(3) have c: "sectionCount out = 1"
    unfolding dated_section_records by (simp add: dated_section_plain)
  from o(4) p have "sectionCount out \<le> nat 2"
    by blast
  with l p o(1) out c show ?thesis
    by blast
qed

lemma indented_heading_digest:
  "parseReleases (JSString (js ''## 1.0.0\<newline> ## foo\<newline>## 2.0.0\<newline>'')) 1
     = Inr (js ''## 1.0.0\<newline>## foo'')"
  by (simp add: eval_defs release_defs)

lemma indented_heading_count: "sectionCount (js ''## 1.0.0\<newline>## foo'') = 2"
  by (simp add: sectionCount_def js_def)

text \<open>Claim C6 as stated, counting the output lines that begin with \<open>##\<close> and a blank, fails
  on a section whose body has an indented heading: trimming the body moves the heading to
  the start of its line, and with limit 1 the digest has two such lines.\<close>

theorem release_digest_heading_lines_exceed_limit:
  "parseReleases (JSString (js ''## 1.0.0\<newline> ## foo\<newline>## 2.0.0\<newline>'')) 1
     = Inr (js ''## 1.0.0\<newline>## foo'')
   \<and> \<not> sectionCount (js ''## 1.0.0\<newline>## foo'') \<le> 1"
  using indented_heading_digest indented_heading_count by simp

section \<open>The four sample inputs of the date normaliser\<close>

text \<open>
  Claim C7: the normaliser maps \<open>2024-07-15\<close> to itself, \<open>July 15, 2024\<close> to
  \<open>2024-07-15\<close>, \<open>July 2024\<close> to \<open>2024-07-01\<close> and \<open>not a date\<close> to null. The first and
  third hold for every host. The second does not come from the \<open>Month DD, YYYY\<close> rule:
  the comma is removed before that rule, which requires it, is tried, so the input
  reaches \<open>Date.parse\<close> as \<open>July 15 2024\<close>. A host that reads this as local midnight two
  hours east of UTC returns the time value 1720994400000, and the UTC getters then give
  \<open>2024-07-14\<close>; a host on UTC returns 1721001600000 and gives \<open>2024-07-15\<close>. The fourth
  is null exactly when the host's \<open>Date.parse\<close> rejects the text.
\<close>

theorem normalizer_samples:
  "toISODateLoose dp (js ''2024-07-15'') = Some (js ''2024-07-15'')
   \<and> toISODateLoose dp (js ''July 2024'') = Some (js ''2024-07-01'')
   \<and> toISODateLoose dp (js ''July 15, 2024'') = fallbackDate dp (js ''July 15 2024'')
   \<and> toISODateLoose (\<lambda>_. Some 1720994400000) (js ''July 15, 2024'') = Some (js ''2024-07-14'')
   \<and> toISODateLoose (\<lambda>_. Some 1721001600000) (js ''July 15, 2024'') = Some (js ''2024-07-15'')
   \<and> toISODateLoose dp (js ''not a date'') = fallbackDate dp (js ''not a date'')"
  using iso_sample month_year_sample long_sample_falls_back garbage_sample
    fallback_east_of_utc fallback_utc
  by simp


section \<open>What the security digest takes from the host\<close>

lemma securityBlock_redated:
  "securityBlock dp' m
     = (case securityBlock dp m of Inl e \<Rightarrow> Inl e | Inr b \<Rightarrow> Inr (redated dp' b))"
  by (auto simp: securityBlock_def lastUpdated_def redated_def
        split: option.splits sum.splits prod.splits)

lemma securityBlocks_redated:
  "securityBlocks dp' src
     = (case securityBlocks dp src of Inl e \<Rightarrow> Inl e | Inr bs \<Rightarrow> Inr (map (redated dp') bs))"
  unfolding securityBlocks_def by (rule execLoop_map) (rule securityBlock_redated)

lemma redated_raw: "lastUpdatedRaw (redated dp b) = lastUpdatedRaw b"
  by (simp add: redated_def)

text \<open>The last-updated texts of a document are those of its records on every host.\<close>

lemma lastUpdatedTexts_blocks:
  assumes "securityBlocks dp (normalizeNewlines s) = Inr bs"
  shows "lastUpdatedTexts s = List.map_filter lastUpdatedRaw bs"
proof -
  from securityBlocks_returns obtain bs0
    where b0: "securityBlocks (\<lambda>_. None) (normalizeNewlines s) = Inr bs0"
    by blast
  with assms securityBlocks_redated[of dp "normalizeNewlines s" "\<lambda>_. None"]
  have "bs = map (redated dp) bs0" by simp
  then have "List.map_filter lastUpdatedRaw bs = List.map_filter lastUpdatedRaw bs0"
    by (simp add: map_filter_def filter_map comp_def redated_raw)
  with b0 show ?thesis
    by (simp add: lastUpdatedTexts_def)
qed

lemma raw_in_texts:
  assumes "securityBlocks dp (normalizeNewlines s) = Inr bs" and "b \<in> set bs"
    and "lastUpdatedRaw b = Some raw"
  shows "raw \<in> set (lastUpdatedTexts s)"
  using assms(2,3) unfolding lastUpdatedTexts_blocks[OF assms(1)]
  by (force simp: map_filter_def)

lemma block_date:
  assumes "securityBlocks dp (normalizeNewlines s) = Inr bs" and "b \<in> set bs"
  shows "redated dp b = b"
proof -
  from assms(1) securityBlocks_redated[of dp "normalizeNewlines s" dp]
  have "map (redated dp) bs = bs" by simp
  then have "map (redated dp) bs = map id bs" by simp
  with assms(2) show ?thesis
    unfolding map_eq_conv by simp
qed

lemma toISODateLoose_sameDates:
  assumes "sameDates h h' s" and "raw \<in> set (lastUpdatedTexts s)"
  shows "toISODateLoose (Date_parse h) raw = toISODateLoose (Date_parse h') raw"
proof (cases "raw \<noteq> [] \<and> patternDate (cleanDate raw) = None")
  case True
  with assms(2) have "raw \<in> set (unresolvedTexts s)"
    by (simp add: unresolvedTexts_def)
  with assms(1) have "fallbackDate (Date_parse h) (cleanDate raw)
      = fallbackDate (Date_parse h') (cleanDate raw)"
    by (simp add: sameDates_def list_all_iff)
  with True show ?thesis
    by (simp add: toISODateLoose_def)
next
  case False
  then show ?thesis
    by (auto simp: toISODateLoose_def)
qed

lemma blocks_sameDates:
  assumes "sameDates h h' s" and "securityBlocks (Date_parse h) (normalizeNewlines s) = Inr bs"
  shows "securityBlocks (Date_parse h') (normalizeNewlines s) = Inr bs"
proof -
  have "redated (Date_parse h') b = b" if b: "b \<in> set bs" for b
  proof -
    have "redated (Date_parse h') b = redated (Date_parse h) b"
    proof (cases "lastUpdatedRaw b")
      case None
      then show ?thesis by (simp add: redated_def)
    next
      case (Some raw)
      from toISODateLoose_sameDates[OF assms(1) raw_in_texts[OF assms(2) b Some]] Some
      show ?thesis by (simp add: redated_def)
    qed
    with block_date[OF assms(2) b] show ?thesis by simp
  qed
  then have "map (redated (Date_parse h')) bs = bs"
    by (simp add: map_idI)
  with assms(2) securityBlocks_redated[of "Date_parse h'" "normalizeNewlines s" "Date_parse h"]
  show ?thesis by simp
qed

lemma dated_key:
  assumes "securityBlocks (Date_parse h) (normalizeNewlines s) = Inr bs" and "b \<in> set bs"
    and "dated b"
  shows "isoKey b \<in> set (dateKeys h s)"
proof -
  from assms(3) obtain k where k: "lastUpdatedISO b = Some k" "isoKey b = k"
    by (auto simp: dated_def truthy_def isoKey_def orEmpty_def orElse_def split: option.splits)
  from block_date[OF assms(1,2)] k(1) obtain raw where raw: "lastUpdatedRaw b = Some raw"
    and "toISODateLoose (Date_parse h) raw = Some k"
    by (cases "lastUpdatedRaw b") (auto simp: redated_def dest: arg_cong[where f = lastUpdatedISO])
  with raw_in_texts[OF assms(1,2) raw] k(2) show ?thesis
    by (force simp: dateKeys_def map_filter_def)
qed

lemma rank_sameOrder:
  assumes "securityBlocks (Date_parse h) (normalizeNewlines s) = Inr bs"
    and "sameOrder h h' (dateKeys h s)"
  shows "rankAnnouncements h bs n = rankAnnouncements h' bs n"
proof -
  have "sortBy (compareAnnouncements h) (filter dated bs)
      = sortBy (compareAnnouncements h') (filter dated bs)"
  proof (rule sortBy_cong, intro ballI)
    fix x y
    assume "x \<in> set (filter dated bs)" and "y \<in> set (filter dated bs)"
    then have "isoKey x \<in> set (dateKeys h s)" and "isoKey y \<in> set (dateKeys h s)"
      by (auto intro: dated_key[OF assms(1)])
    with assms(2) have "sgn (localeCompare h (isoKey y) (isoKey x))
        = sgn (localeCompare h' (isoKey y) (isoKey x))"
      by (simp add: sameOrder_def list_all_iff)
    then show "(compareAnnouncements h x y \<le> 0) = (compareAnnouncements h' x y \<le> 0)"
      unfolding compare_le_iff by (rule same_sign_le)
  qed
  then show ?thesis
    by (simp add: rankAnnouncements_def dated_def[abs_def])
qed

text \<open>
  Claim C9, as the code has it. \<open>parseReleases\<close> reaches no built-in that depends on the
  host and returns a string for every document and limit. \<open>parseSecurityAnnouncements\<close> is a
  function of the document, the limit and two answers of the host: the UTC date that
  \<open>Date.parse\<close> gives for those last-updated texts of the document that none of the three
  date patterns resolves, and the side of zero on which \<open>localeCompare\<close> puts each pair of the
  document's dates. On two hosts that agree in these answers for a document, whatever they
  answer elsewhere, it returns the same string.
\<close>

theorem security_digest_host_dependence:
  assumes "sameDates h h' s" and "sameOrder h h' (dateKeys h s)"
  shows "(\<exists>out. parseSecurityAnnouncements h (JSString s) n = Inr out
                \<and> parseSecurityAnnouncements h' (JSString s) n = Inr out)
         \<and> (\<exists>out. parseReleases (JSString s) n = Inr out)"
proof -
  from securityBlocks_returns obtain bs
    where bs: "securityBlocks (Date_parse h) (normalizeNewlines s) = Inr bs"
    by blast
  from blocks_sameDates[OF assms(1) bs] bs rank_sameOrder[OF bs assms(2)]
  have "parseSecurityAnnouncements h (JSString s) n = parseSecurityAnnouncements h' (JSString s) n"
    by (simp add: parseSecurityAnnouncements_def)
  with parseSecurity_string_returns[of h s n] parseReleases_string_returns[of s n]
  show ?thesis by auto
qed

lemma zoned_date_blocks:
  "securityBlocks (Date_parse hostUTC)
       (normalizeNewlines (js ''## A\<newline>_Last updated Mon, 15 Jul 2024 12:00:00 GMT_\<newline>a\<newline>## B\<newline>_Last updated 2025-01-10_\<newline>b\<newline>## C\<newline>''))
     = Inr [\<lparr>title = js ''A'', lastUpdatedISO = Some (js ''2024-07-15''),
              lastUpdatedRaw = Some (js ''Mon, 15 Jul 2024 12:00:00 GMT''), product = None,
              productVersion = None, cves = [], detailsMarkdown = js ''a''\<rparr>,
            \<lparr>title = js ''B'', lastUpdatedISO = Some (js ''2025-01-10''),
              lastUpdatedRaw = Some (js ''2025-01-10''), product = None,
              productVersion = None, cves = [], detailsMarkdown = js ''b''\<rparr>]"
  by (simp add: eval_defs date_defs security_defs hostUTC_def)

lemma zoned_date_texts:
  "lastUpdatedTexts (js ''## A\<newline>_Last updated Mon, 15 Jul 2024 12:00:00 GMT_\<newline>a\<newline>## B\<newline>_Last updated 2025-01-10_\<newline>b\<newline>## C\<newline>'')
     = [js ''Mon, 15 Jul 2024 12:00:00 GMT'', js ''2025-01-10'']"
  unfolding lastUpdatedTexts_blocks[OF zoned_date_blocks] by (simp add: map_filter_def)

lemma zoned_date_unresolved:
  "patternDate (cleanDate (js ''Mon, 15 Jul 2024 12:00:00 GMT'')) = None"
  "cleanDate (js ''Mon, 15 Jul 2024 12:00:00 GMT'') = js ''Mon, 15 Jul 2024 12:00:00 GMT''"
  "patternDate (cleanDate (js ''2025-01-10'')) = Some (js ''2025-01-10'')"
  "js ''Mon, 15 Jul 2024 12:00:00 GMT'' \<noteq> []"
  "js ''2025-01-10'' \<noteq> []"
  by (simp_all add: eval_defs date_defs)

lemma zoned_date_same_dates:
  "sameDates hostUTC hostEast
     (js ''## A\<newline>_Last updated Mon, 15 Jul 2024 12:00:00 GMT_\<newline>a\<newline>## B\<newline>_Last updated 2025-01-10_\<newline>b\<newline>## C\<newline>'')"
  unfolding sameDates_def unresolvedTexts_def zoned_date_texts
  apply (simp add: zoned_date_unresolved fallbackDate_def hostUTC_def hostEast_def)
  apply (simp add: js_def)
  done

lemma zoned_date_normalised:
  "toISODateLoose (Date_parse hostUTC) (js ''Mon, 15 Jul 2024 12:00:00 GMT'') = Some (js ''2024-07-15'')"
  "toISODateLoose (Date_parse hostUTC) (js ''2025-01-10'') = Some (js ''2025-01-10'')"
  by (simp_all add: eval_defs date_defs hostUTC_def)

lemma zoned_date_keys:
  "dateKeys hostUTC
     (js ''## A\<newline>_Last updated Mon, 15 Jul 2024 12:00:00 GMT_\<newline>a\<newline>## B\<newline>_Last updated 2025-01-10_\<newline>b\<newline>## C\<newline>'')
     = [js ''2024-07-15'', js ''2025-01-10'']"
  unfolding dateKeys_def zoned_date_texts
  by (simp add: map_filter_def zoned_date_normalised)

lemma zoned_date_same_order:
  "sameOrder hostUTC hostEast
     (dateKeys hostUTC
        (js ''## A\<newline>_Last updated Mon, 15 Jul 2024 12:00:00 GMT_\<newline>a\<newline>## B\<newline>_Last updated 2025-01-10_\<newline>b\<newline>## C\<newline>''))"
  unfolding zoned_date_keys
  by (simp add: sameOrder_def hostUTC_def hostEast_def codeUnitOrder_def js_def)

lemma zoned_date_digest:
  "parseSecurityAnnouncements hostUTC
       (JSString (js ''## A\<newline>_Last updated Mon, 15 Jul 2024 12:00:00 GMT_\<newline>a\<newline>## B\<newline>_Last updated 2025-01-10_\<newline>b\<newline>## C\<newline>'')) 6
     = Inr ([10] @ js ''## B '' @ [8212] @ js '' updated 2025-01-10\<newline>Details:\<newline>  b\<newline>''
            @ [10] @ js ''## A '' @ [8212] @ js '' updated 2024-07-15\<newline>Details:\<newline>  a'')"
  apply (simp add: parseSecurityAnnouncements_def zoned_date_blocks)
  apply (simp add: render_defs hostUTC_def)
  done

theorem security_digest_host_dependence_witness:
  "sameDates hostUTC hostEast
     (js ''## A\<newline>_Last updated Mon, 15 Jul 2024 12:00:00 GMT_\<newline>a\<newline>## B\<newline>_Last updated 2025-01-10_\<newline>b\<newline>## C\<newline>'')
   \<and> sameOrder hostUTC hostEast
       (dateKeys hostUTC
          (js ''## A\<newline>_Last updated Mon, 15 Jul 2024 12:00:00 GMT_\<newline>a\<newline>## B\<newline>_Last updated 2025-01-10_\<newline>b\<newline>## C\<newline>''))
   \<and> Date_parse hostUTC (js ''July 15 2024'') \<noteq> Date_parse hostEast (js ''July 15 2024'')
   \<and> parseSecurityAnnouncements hostEast
         (JSString (js ''## A\<newline>_Last updated Mon, 15 Jul 2024 12:00:00 GMT_\<newline>a\<newline>## B\<newline>_Last updated 2025-01-10_\<newline>b\<newline>## C\<newline>'')) 6
       = Inr ([10] @ js ''## B '' @ [8212] @ js '' updated 2025-01-10\<newline>Details:\<newline>  b\<newline>''
              @ [10] @ js ''## A '' @ [8212] @ js '' updated 2024-07-15\<newline>Details:\<newline>  a'')"
proof -
  have "Date_parse hostUTC (js ''July 15 2024'') \<noteq> Date_parse hostEast (js ''July 15 2024'')"
    by (simp add: hostUTC_def hostEast_def)
  with security_digest_host_dependence[OF zoned_date_same_dates zoned_date_same_order, of 6]
    zoned_date_same_dates zoned_date_same_order zoned_date_digest
  show ?thesis by auto
qed

lemma local_date_on_utc:
  "parseSecurityAnnouncements hostUTC
       (JSString (js ''## A\<newline>_Last updated July 15, 2024_\<newline>## B\<newline>'')) 6
     = Inr ([10] @ js ''## A '' @ [8212] @ js '' updated 2024-07-15\<newline>Details:\<newline>'')"
  by (simp add: eval_defs date_defs security_defs hostUTC_def)

lemma local_date_east_of_utc:
  "parseSecurityAnnouncements hostEast
       (JSString (js ''## A\<newline>_Last updated July 15, 2024_\<newline>## B\<newline>'')) 6
     = Inr ([10] @ js ''## A '' @ [8212] @ js '' updated 2024-07-14\<newline>Details:\<newline>'')"
  by (simp add: eval_defs date_defs security_defs hostEast_def)

text \<open>Claim C9 as stated, with a digest that does not depend on the host's time zone, fails
  on a last-updated line \<open>July 15, 2024\<close>: the comma is removed, no pattern resolves the text,
  and \<open>Date.parse\<close> reads it as local midnight. The host on UTC renders the 15th of July, the
  host two hours east of UTC the 14th.\<close>

theorem security_digest_depends_on_time_zone:
  "parseSecurityAnnouncements hostUTC
       (JSString (js ''## A\<newline>_Last updated July 15, 2024_\<newline>## B\<newline>'')) 6
     = Inr ([10] @ js ''## A '' @ [8212] @ js '' updated 2024-07-15\<newline>Details:\<newline>'')
   \<and> parseSecurityAnnouncements hostEast
       (JSString (js ''## A\<newline>_Last updated July 15, 2024_\<newline>## B\<newline>'')) 6
     = Inr ([10] @ js ''## A '' @ [8212] @ js '' updated 2024-07-14\<newline>Details:\<newline>'')
   \<and> parseSecurityAnnouncements hostUTC
       (JSString (js ''## A\<newline>_Last updated July 15, 2024_\<newline>## B\<newline>'')) 6
     \<noteq> parseSecurityAnnouncements hostEast
         (JSString (js ''## A\<newline>_Last updated July 15, 2024_\<newline>## B\<newline>'')) 6"
  unfolding local_date_on_utc local_date_east_of_utc by (simp add: js_def)

section \<open>Cleaning a body twice\<close>

subsection \<open>A replacement pass and the length of the text\<close>



lemma length_replaceAllFrom:
  assumes "0 < minLen r" and "length rp \<le> minLen r"
  shows "length (replaceAllFrom ic ml r rp pre suf) \<le> length suf"
  using assms
proof (induction ic ml r rp pre suf rule: replaceAllFrom.induct)
  case (1 ic ml r rp pre suf)
  show ?case
  proof (cases "matchAt ic ml r pre suf")
    case None
    show ?thesis
    proof (cases suf)
      case Nil
      with None show ?thesis by (simp add: replaceAllFrom_Nil)
    next
      case (Cons c cs)
      from "1.IH"(1)[OF None Cons "1.prems"] None Cons show ?thesis
        by (simp add: replaceAllFrom_Cons)
    qed
  next
    case (Some m)
    from matchAt_progress[OF Some] "1.prems"
    have lt: "length (mrest m) < length suf" and le: "length (mrest m) + length rp \<le> length suf"
      by simp_all
    from "1.IH"(2)[OF Some lt "1.prems"]
    have "length (replaceAllFrom ic ml r rp (rev (mtext m) @ pre) (mrest m)) \<le> length (mrest m)" .
    with Some lt le show ?thesis
      by (subst replaceAllFrom.simps) simp
  qed
qed


lemma length_replaceAll:
  "0 < minLen r \<Longrightarrow> length rp \<le> minLen r \<Longrightarrow> length (replaceAll ic ml r rp s) \<le> length s"
  by (simp add: replaceAll_def length_replaceAllFrom)


lemma length_trim: "length (trim s) \<le> length s"
proof -
  have "length (trim s) \<le> length (dropWhile isSpace s)"
    unfolding trim_def using length_dropWhile_le[of isSpace "rev (dropWhile isSpace s)"] by simp
  also have "\<dots> \<le> length s"
    by (rule length_dropWhile_le)
  finally show ?thesis .
qed

lemma minLen_patterns:
  "0 < minLen (reShortcode name)" "1 < minLen reAdmonition" "1 < minLen reSecurityAdmonition"
  by (simp_all add: reShortcode_def reAdmonition_def reSecurityAdmonition_def cat_def lit_def
        chr_def many1_def)

subsection \<open>A replacement pass and the ends of the text\<close>





subsection \<open>The trailing-blank pattern removes the blanks at line ends\<close>

lemma blank_class: "cmatch ic (COneOf [CChar 32, CChar 9]) c = isBlank c"
  by (auto simp: isBlank_def canonicalize_def)

lemma blank_not_terminator: "isBlank c \<Longrightarrow> \<not> isLineTerminator c"
  by (auto simp: isBlank_def isLineTerminator_def)

lemma blank_is_space: "isBlank c \<Longrightarrow> isSpace c"
  by (auto simp: isBlank_def isSpace_def isWhiteSpace_def)

lemma ms_blank_char:
  "ms ic ml (Chr (COneOf [CChar 32, CChar 9])) (p, s, caps)
     = (case s of [] \<Rightarrow> [] | x # xs \<Rightarrow> if isBlank x then [(x # p, xs, caps)] else [])"
  by (cases s) (auto simp: isBlank_def canonicalize_def)

lemma ms_eol_eps:
  "ms ic True (Seq Eol Eps) (p, s, caps) = (if atLineEnd s then [(p, s, caps)] else [])"
  by (cases s) (auto simp: atLineEnd_def)

lemma blanks_then_eol:
  "concat (map (ms False True (Seq Eol Eps))
               (ms False True (Star True (Chr (COneOf [CChar 32, CChar 9]))) (p, s, caps)))
     = (if atLineEnd (dropWhile isBlank s)
        then [(rev (takeWhile isBlank s) @ p, dropWhile isBlank s, caps)] else [])"
proof (induction s arbitrary: p)
  case Nil
  have "ms False True (Star True (Chr (COneOf [CChar 32, CChar 9]))) (p, [], caps) = [(p, [], caps)]"
    by (subst ms_Star) (simp add: ms_blank_char del: ms.simps(1))
  then show ?case
    by (simp add: ms_eol_eps del: ms.simps)
next
  case (Cons x xs)
  show ?case
  proof (cases "isBlank x")
    case True
    have "ms False True (Star True (Chr (COneOf [CChar 32, CChar 9]))) (p, x # xs, caps)
        = ms False True (Star True (Chr (COneOf [CChar 32, CChar 9]))) (x # p, xs, caps)
          @ [(p, x # xs, caps)]"
      using True by (subst ms_Star) (simp add: ms_blank_char remaining_def del: ms.simps(1))
    moreover have "\<not> atLineEnd (x # xs)"
      using True by (simp add: atLineEnd_def blank_not_terminator)
    ultimately show ?thesis
      using Cons[of "x # p"] True by (simp add: ms_eol_eps del: ms.simps)
  next
    case False
    have "ms False True (Star True (Chr (COneOf [CChar 32, CChar 9]))) (p, x # xs, caps)
        = [(p, x # xs, caps)]"
      using False by (subst ms_Star) (simp add: ms_blank_char del: ms.simps(1))
    with False show ?thesis
      by (simp add: ms_eol_eps del: ms.simps)
  qed
qed

lemma ms_trailing_blanks:
  "ms False True reTrailingBlanks (pre, c # cs, caps)
     = (if isBlank c \<and> atLineEnd (dropWhile isBlank cs)
        then [(rev (takeWhile isBlank cs) @ c # pre, dropWhile isBlank cs, caps)] else [])"
proof -
  have "ms False True reTrailingBlanks (pre, c # cs, caps)
      = concat (map (ms False True (Seq Eol Eps))
          (concat (map (ms False True (Star True (Chr (COneOf [CChar 32, CChar 9]))))
             (ms False True (Chr (COneOf [CChar 32, CChar 9])) (pre, c # cs, caps)))))"
    by (simp only: reTrailingBlanks_def cat_def many1_def foldr.simps comp_apply id_apply
          ms.simps(3))
  also have "\<dots> = (if isBlank c
      then concat (map (ms False True (Seq Eol Eps))
             (ms False True (Star True (Chr (COneOf [CChar 32, CChar 9]))) (c # pre, cs, caps)))
      else [])"
    by (simp add: ms_blank_char del: ms.simps)
  also have "\<dots> = (if isBlank c \<and> atLineEnd (dropWhile isBlank cs)
        then [(rev (takeWhile isBlank cs) @ c # pre, dropWhile isBlank cs, caps)] else [])"
    by (simp only: blanks_then_eol) simp
  finally show ?thesis .
qed

lemma ms_trailing_blanks_Nil: "ms False True reTrailingBlanks (pre, [], caps) = []"
  by (simp add: reTrailingBlanks_def cat_def many1_def)

lemma stripLineEnds_skip:
  "atLineEnd (dropWhile isBlank cs) \<Longrightarrow> stripLineEnds cs = stripLineEnds (dropWhile isBlank cs)"
  by (induction cs) auto

lemma strip_refines:
  "replaceAllFrom False True reTrailingBlanks [] pre suf = stripLineEnds suf"
proof (induction suf arbitrary: pre rule: length_induct)
  case (1 suf)
  show ?case
  proof (cases suf)
    case Nil
    then show ?thesis
      by (simp add: replaceAllFrom_Nil matchAt_def ms_trailing_blanks_Nil)
  next
    case (Cons c cs)
    show ?thesis
    proof (cases "isBlank c \<and> atLineEnd (dropWhile isBlank cs)")
      case True
      have "length (dropWhile isBlank cs) < length suf"
        using Cons length_dropWhile_le[of isBlank cs] by simp
      with "1.IH" have "replaceAllFrom False True reTrailingBlanks []
          (rev (take (Suc (length cs) - length (dropWhile isBlank cs)) (c # cs)) @ pre)
          (dropWhile isBlank cs) = stripLineEnds (dropWhile isBlank cs)"
        by blast
      with True Cons length_dropWhile_le[of isBlank cs] stripLineEnds_skip[of cs] show ?thesis
        by (simp add: replaceAllFrom_Cons matchAt_def ms_trailing_blanks remaining_def
            less_Suc_eq_le)
    next
      case False
      from "1.IH" Cons have "replaceAllFrom False True reTrailingBlanks [] (c # pre) cs = stripLineEnds cs"
        by simp
      with False Cons show ?thesis
        by (auto simp: replaceAllFrom_Cons matchAt_def ms_trailing_blanks)
    qed
  qed
qed

lemma strip_is_stripLineEnds: "replaceAll False True reTrailingBlanks [] s = stripLineEnds s"
  by (simp add: replaceAll_def strip_refines)

subsection \<open>Stripping and trimming do not undo each other\<close>

lemma set_stripLineEnds: "set (stripLineEnds s) \<subseteq> set s"
  by (induction s) auto



lemma length_stripLineEnds: "length (stripLineEnds s) \<le> length s"
  by (induction s) auto



lemma strip_keeps_head:
  assumes "dropWhile isSpace y = y"
  shows "dropWhile isSpace (stripLineEnds y) = stripLineEnds y"
proof (cases y)
  case Nil
  then show ?thesis by simp
next
  case (Cons c cs)
  with assms have "\<not> isSpace c"
    using dropWhile_fix_iff[of isSpace y] by simp
  moreover from this have "\<not> isBlank c"
    by (auto dest: blank_is_space)
  ultimately show ?thesis
    using Cons by simp
qed

lemma strip_keeps_last:
  "y \<noteq> [] \<Longrightarrow> \<not> isSpace (last y) \<Longrightarrow> stripLineEnds y \<noteq> [] \<and> last (stripLineEnds y) = last y"
proof (induction y)
  case Nil
  then show ?case by simp
next
  case (Cons c cs)
  show ?case
  proof (cases "cs = []")
    case True
    with Cons.prems show ?thesis by (auto dest: blank_is_space)
  next
    case False
    with Cons.prems have "\<not> isSpace (last cs)" by simp
    from Cons.IH[OF False this] False show ?thesis by simp
  qed
qed

lemma trim_strip_fixed:
  assumes "dropWhile isSpace y = y" and "dropWhile isSpace (rev y) = rev y"
  shows "trim (stripLineEnds y) = stripLineEnds y"
proof (rule trim_fix)
  show "dropWhile isSpace (stripLineEnds y) = stripLineEnds y"
    by (rule strip_keeps_head[OF assms(1)])
next
  show "dropWhile isSpace (rev (stripLineEnds y)) = rev (stripLineEnds y)"
  proof (cases "y = []")
    case True
    then show ?thesis by simp
  next
    case False
    from assms(2) False have "\<not> isSpace (hd (rev y))"
      by (simp add: dropWhile_fix_iff)
    with False have nl: "\<not> isSpace (last y)" by (simp add: hd_rev)
    from strip_keeps_last[OF False nl] nl show ?thesis
      by (simp add: dropWhile_fix_iff hd_rev)
  qed
qed

lemma trim_strip_trim: "trim (stripLineEnds (trim x)) = stripLineEnds (trim x)"
  by (rule trim_strip_fixed[OF trim_head trim_last])






subsection \<open>The second pass\<close>


lemma length_stripShortcodes: "length (stripShortcodes s) \<le> length s"
proof -
  have "length (replaceAll False False (reShortcode n) [] x) \<le> length x" for n x
    by (rule length_replaceAll) (simp_all add: minLen_patterns)
  from this[of "''desktop-install-v2''"] this[of "''desktop-install''"] this[of "''release-date''"]
  show ?thesis
    unfolding stripShortcodes_def by (meson order_trans)
qed


lemma cleanRelease_strip: "cleanRelease b = stripLineEnds (replaceAll False True reAdmonition (js ''>'') (trim (stripShortcodes b)))"
  by (simp add: cleanRelease_def strip_is_stripLineEnds)


lemma length_cleanRelease: "length (cleanRelease b) \<le> length b"
proof -
  have "length (cleanRelease b)
      \<le> length (replaceAll False True reAdmonition (js ''>'') (trim (stripShortcodes b)))"
    unfolding cleanRelease_strip by (rule length_stripLineEnds)
  also have "\<dots> \<le> length (trim (stripShortcodes b))"
    using minLen_patterns(2) by (intro length_replaceAll) (simp_all add: js_def)
  also have "\<dots> \<le> length (stripShortcodes b)"
    by (rule length_trim)
  also have "\<dots> \<le> length b"
    by (rule length_stripShortcodes)
  finally show ?thesis .
qed




















section \<open>Both entry points on strings and on null\<close>

text \<open>
  Claim C10: on a null or undefined document \<open>parseSecurityAnnouncements\<close> coerces the
  argument to the empty string and returns the empty digest, while \<open>parseReleases\<close> calls
  \<open>.replace\<close> on the argument and raises a TypeError; on every string both return a string.
  For strings this needs that the \<open>exec\<close> loops end (each section match consumes at least
  the two \<open>#\<close>) and that every capture group read with \<open>.trim()\<close> took part in its match.
\<close>

theorem entry_points_on_non_strings:
  "parseReleases JSNull n = Inl TypeError
   \<and> parseReleases JSUndefined n = Inl TypeError
   \<and> parseSecurityAnnouncements h JSNull l = Inr []
   \<and> parseSecurityAnnouncements h JSUndefined l = Inr []
   \<and> (\<exists>out. parseReleases (JSString s) n = Inr out)
   \<and> (\<exists>out. parseSecurityAnnouncements h (JSString s) l = Inr out)"
  using parseSecurity_no_string[of h l] parseReleases_string_returns[of s n]
    parseSecurity_string_returns[of h s l]
  by (simp add: parseReleases_def)


end
